theory Spec2Isabelle
  imports Complex_Main "HOL-Library.AList"
begin

section \<open>The multi-tier cache of open-canvas\<close>

text \<open>
  A shallow embedding of the cache subsystem of the web application:
  \<^item> \<^verbatim>\<open>RedisCacheManager\<close> (apps/web/src/lib/cache/redis-cache-manager.ts), the remote tier
    client;
  \<^item> \<^verbatim>\<open>EnhancedCacheManager\<close> (lib/cache/enhanced-cache-manager.ts), the facade over the
    memory tier and the remote tier;
  \<^item> \<^verbatim>\<open>CacheManager\<close> (apps/web/src/lib/cache/cache-manager.ts), the older multi-level cache.

  Conventions of the model.
  \<^item> \<^verbatim>\<open>Date.now()\<close> is an argument \<open>now\<close> (milliseconds, an \<open>int\<close>) of every operation:
    one operation reads the clock once.
  \<^item> A JavaScript \<^verbatim>\<open>Map\<close> iterates in insertion order, and \<^verbatim>\<open>Map.set\<close> on a present key keeps
    the key's position. The memory tier is therefore an association list, read with
    \<open>map_of\<close>, written with \<open>AList.update\<close> (in place, or appended at the end) and
    \<open>AList.delete\<close>.
  \<^item> An operation that may throw returns an \<open>outcome\<close>: \<open>Inl (e, s)\<close> is the exception \<open>e\<close>
    thrown with the object left in state \<open>s\<close>, \<open>Inr (a, s)\<close> is a normal return of \<open>a\<close>.
    \<^verbatim>\<open>try { ... } catch (error) { ... }\<close> is \<open>try_catch\<close>.
  \<^item> The ioredis client and \<^verbatim>\<open>JSON\<close> are the environment: a record \<open>world\<close> gives, for every
    call, either the exception it throws or the value it returns.
  \<^item> Counters are \<open>nat\<close>, clock readings and TTLs are \<open>int\<close>, rates are \<open>real\<close>. A cached value is
    of a type \<open>'v\<close> of values other than \<^verbatim>\<open>null\<close>; a result that may be \<^verbatim>\<open>null\<close> is an \<open>option\<close>.
  \<^item> A sequence of operations is a sequence of completed calls; the one place where calls
    overlap, \<^verbatim>\<open>Promise.all\<close> in \<^verbatim>\<open>mset\<close>, is written out.
  \<^item> \<^verbatim>\<open>console.log\<close> and the latency average \<^verbatim>\<open>avgResponseTime\<close> (which no other field reads)
    are left out.
\<close>

subsection \<open>Exceptions and the environment\<close>

type_synonym key = string

datatype exn = JsError string

type_synonym ('s, 'a) outcome = "(exn \<times> 's) + ('a \<times> 's)"

definition try_catch ::
  "('s, 'a) outcome \<Rightarrow> (exn \<Rightarrow> 's \<Rightarrow> ('s, 'a) outcome) \<Rightarrow> ('s, 'a) outcome" where
  "try_catch body handler = (case body of Inl (e, s) \<Rightarrow> handler e s | Inr r \<Rightarrow> Inr r)"

definition returns :: "('s, 'a) outcome \<Rightarrow> bool" where
  "returns r = (case r of Inl _ \<Rightarrow> False | Inr _ \<Rightarrow> True)"

record 'v world =
  redis_get :: "key \<Rightarrow> exn + string option"
  redis_setex :: "key \<Rightarrow> int \<Rightarrow> string \<Rightarrow> exn + unit"
  redis_del :: "key \<Rightarrow> exn + unit"
  redis_exists :: "key \<Rightarrow> exn + int"
  redis_flushdb :: "exn + unit"
  redis_disconnect :: "exn + unit"
  JSON_parse :: "string \<Rightarrow> exn + 'v option"
  JSON_stringify :: "'v \<Rightarrow> exn + string"

text \<open>
  \<open>redis_get w k = Inr None\<close> is the reply \<^verbatim>\<open>null\<close>; \<open>JSON_parse w d = Inr None\<close> is a payload
  that parses to \<^verbatim>\<open>null\<close>.
\<close>

subsection \<open>RedisCacheManager: the remote tier client\<close>

record RedisStats =
  requests_r :: nat
  hits_r :: nat
  misses_r :: nat
  errors :: nat
  hitRate_r :: real

datatype Redis = RedisClient

text \<open>
  A handle returned by \<^verbatim>\<open>setTimeout\<close>: its delay, and whether the callback is still to run.
  \<^verbatim>\<open>clearTimeout\<close> and the firing of the callback both end \<open>pending\<close>.
\<close>

record Timeout =
  delay :: nat
  pending :: bool

record RedisCacheManager =
  redis :: "Redis option"
  isConnected :: bool
  stats_r :: RedisStats
  reconnectAttempts :: nat
  maxReconnectAttempts :: nat
  reconnectTimer :: "Timeout option"

definition RedisCacheManager_new :: RedisCacheManager where
  "RedisCacheManager_new =
     \<lparr> redis = None, isConnected = False,
       stats_r = \<lparr> requests_r = 0, hits_r = 0, misses_r = 0, errors = 0, hitRate_r = 0 \<rparr>,
       reconnectAttempts = 0, maxReconnectAttempts = 5, reconnectTimer = None \<rparr>"

text \<open>
  The constructor: \<^verbatim>\<open>initializeRedis\<close> returns at its first statement (the connection is
  switched off in the source), so \<open>redis\<close> stays \<^verbatim>\<open>null\<close>.
\<close>

definition updateHitRate :: "RedisCacheManager \<Rightarrow> RedisCacheManager" where
  "updateHitRate r =
     r\<lparr>stats_r := (stats_r r)\<lparr>hitRate_r :=
        (if requests_r (stats_r r) > 0
         then real (hits_r (stats_r r)) / real (requests_r (stats_r r)) else 0)\<rparr>\<rparr>"

definition count_error :: "RedisCacheManager \<Rightarrow> RedisCacheManager" where
  "count_error r = r\<lparr>stats_r := (stats_r r)\<lparr>errors := errors (stats_r r) + 1\<rparr>\<rparr>"

definition usable :: "RedisCacheManager \<Rightarrow> bool" where
  "usable r = (redis r \<noteq> None \<and> isConnected r)"

definition get_r ::
  "'v world \<Rightarrow> RedisCacheManager \<Rightarrow> key \<Rightarrow> (RedisCacheManager, 'v option) outcome" where
  "get_r w r k =
     (if \<not> usable r then Inr (None, r)
      else
        let r1 = r\<lparr>stats_r := (stats_r r)\<lparr>requests_r := requests_r (stats_r r) + 1\<rparr>\<rparr> in
        try_catch
          (case redis_get w k of
             Inl e \<Rightarrow> Inl (e, r1)
           | Inr None \<Rightarrow>
               Inr (None,
                 updateHitRate (r1\<lparr>stats_r := (stats_r r1)\<lparr>misses_r := misses_r (stats_r r1) + 1\<rparr>\<rparr>))
           | Inr (Some d) \<Rightarrow>
               (let r2 = updateHitRate
                           (r1\<lparr>stats_r := (stats_r r1)\<lparr>hits_r := hits_r (stats_r r1) + 1\<rparr>\<rparr>)
                in case JSON_parse w d of
                     Inl e \<Rightarrow> Inl (e, r2)
                   | Inr v \<Rightarrow> Inr (v, r2)))
          (\<lambda>e r'. Inr (None, count_error r')))"

definition set_r ::
  "'v world \<Rightarrow> RedisCacheManager \<Rightarrow> key \<Rightarrow> 'v \<Rightarrow> int \<Rightarrow> (RedisCacheManager, unit) outcome" where
  "set_r w r k d ttlSeconds =
     (if \<not> usable r then Inr ((), r)
      else
        try_catch
          (case JSON_stringify w d of
             Inl e \<Rightarrow> Inl (e, r)
           | Inr serializedData \<Rightarrow>
               (case redis_setex w k ttlSeconds serializedData of
                  Inl e \<Rightarrow> Inl (e, r)
                | Inr _ \<Rightarrow> Inr ((), r)))
          (\<lambda>e r'. Inr ((), count_error r')))"

definition delete_r :: "'v world \<Rightarrow> RedisCacheManager \<Rightarrow> key \<Rightarrow> (RedisCacheManager, unit) outcome" where
  "delete_r w r k =
     (if \<not> usable r then Inr ((), r)
      else
        try_catch
          (case redis_del w k of Inl e \<Rightarrow> Inl (e, r) | Inr _ \<Rightarrow> Inr ((), r))
          (\<lambda>e r'. Inr ((), count_error r')))"

definition exists_r :: "'v world \<Rightarrow> RedisCacheManager \<Rightarrow> key \<Rightarrow> (RedisCacheManager, bool) outcome" where
  "exists_r w r k =
     (if \<not> usable r then Inr (False, r)
      else
        try_catch
          (case redis_exists w k of Inl e \<Rightarrow> Inl (e, r) | Inr result \<Rightarrow> Inr (result = 1, r))
          (\<lambda>e r'. Inr (False, count_error r')))"

definition clear_r :: "'v world \<Rightarrow> RedisCacheManager \<Rightarrow> (RedisCacheManager, unit) outcome" where
  "clear_r w r =
     (if \<not> usable r then Inr ((), r)
      else
        try_catch
          (case redis_flushdb w of Inl e \<Rightarrow> Inl (e, r) | Inr _ \<Rightarrow> Inr ((), r))
          (\<lambda>e r'. Inr ((), count_error r')))"

text \<open>
  \<^verbatim>\<open>destroy\<close> has no \<^verbatim>\<open>try\<close>: an exception of \<^verbatim>\<open>redis.disconnect()\<close> leaves the method after the
  timer was cleared and before \<^verbatim>\<open>this.redis = null\<close>.
\<close>

definition destroy_r :: "'v world \<Rightarrow> RedisCacheManager \<Rightarrow> (RedisCacheManager, unit) outcome" where
  "destroy_r w r =
     (let r1 = (if reconnectTimer r \<noteq> None then r\<lparr>reconnectTimer := None\<rparr> else r) in
      if redis r1 \<noteq> None then
        (case redis_disconnect w of
           Inl e \<Rightarrow> Inl (e, r1)
         | Inr _ \<Rightarrow> Inr ((), r1\<lparr>redis := None, isConnected := False\<rparr>))
      else Inr ((), r1\<lparr>isConnected := False\<rparr>))"

subsection \<open>RedisCacheManager: connection events and reconnection\<close>

text \<open>
  The handlers that \<^verbatim>\<open>setupEventHandlers\<close> installs on the client, and the callback of the
  reconnect timer, as the events of a state machine. A step also returns what it asks of
  the runtime: \<^verbatim>\<open>setTimeout\<close> with its delay, \<^verbatim>\<open>clearTimeout\<close>, \<^verbatim>\<open>redis.connect()\<close>.
\<close>

datatype event = Connect | Ready | Error | Close | Reconnecting | TimerFires

datatype effect = SetTimeout nat | ClearTimeout | RedisConnect

definition scheduleReconnect :: "RedisCacheManager \<Rightarrow> RedisCacheManager \<times> effect list" where
  "scheduleReconnect r =
     (if reconnectAttempts r \<ge> maxReconnectAttempts r then (r, [])
      else
        let cleared = (if reconnectTimer r \<noteq> None then [ClearTimeout] else []);
            d = 2 ^ reconnectAttempts r * 1000
        in (r\<lparr>reconnectTimer := Some \<lparr> delay = d, pending = True \<rparr>\<rparr>, cleared @ [SetTimeout d]))"

fun on_event :: "event \<Rightarrow> RedisCacheManager \<Rightarrow> RedisCacheManager \<times> effect list" where
  "on_event Connect r = (r\<lparr>isConnected := True, reconnectAttempts := 0\<rparr>, [])"
| "on_event Ready r = (r\<lparr>isConnected := True\<rparr>, [])"
| "on_event Error r = scheduleReconnect (count_error (r\<lparr>isConnected := False\<rparr>))"
| "on_event Close r = (r\<lparr>isConnected := False\<rparr>, [])"
| "on_event Reconnecting r = (r, [])"
| "on_event TimerFires r =
     (case reconnectTimer r of
        None \<Rightarrow> (r, [])
      | Some t \<Rightarrow>
          if pending t
          then (r\<lparr>reconnectAttempts := reconnectAttempts r + 1,
                  reconnectTimer := Some (t\<lparr>pending := False\<rparr>)\<rparr>,
                if redis r \<noteq> None then [RedisConnect] else [])
          else (r, []))"

fun run_events :: "event list \<Rightarrow> RedisCacheManager \<Rightarrow> RedisCacheManager \<times> effect list" where
  "run_events [] r = (r, [])"
| "run_events (ev # evs) r =
     (case on_event ev r of
        (r1, fx1) \<Rightarrow> (case run_events evs r1 of (r2, fx2) \<Rightarrow> (r2, fx1 @ fx2)))"

fun delays :: "effect list \<Rightarrow> nat list" where
  "delays [] = []"
| "delays (SetTimeout d # fx) = d # delays fx"
| "delays (_ # fx) = delays fx"

fun connects :: "effect list \<Rightarrow> nat" where
  "connects [] = 0"
| "connects (RedisConnect # fx) = Suc (connects fx)"
| "connects (_ # fx) = connects fx"

text \<open>One failed round: the connection fails, the scheduled reconnect fires.\<close>

fun failed_rounds :: "nat \<Rightarrow> event list" where
  "failed_rounds 0 = []"
| "failed_rounds (Suc n) = Error # TimerFires # failed_rounds n"

subsection \<open>EnhancedCacheManager: the facade and its memory tier\<close>

record 'v CacheItem =
  data :: 'v
  timestamp :: int
  ttl :: int
  accessCount :: nat
  lastAccessed :: int

datatype backend = redis_backend | memory_backend

datatype status = connected | error | disabled

text \<open>
  \<^verbatim>\<open>CacheStats\<close> of the facade, its three nested objects flattened:
  \<^verbatim>\<open>stats.total.requests\<close> is \<open>total_requests\<close>, and so on.
\<close>

record CacheStats =
  total_requests :: nat
  total_hits :: nat
  total_misses :: nat
  total_hitRate :: real
  backend_type :: backend
  backend_status :: status
  backend_hitRate :: real
  memoryCache_size :: nat
  memoryCache_hitRate :: real

datatype preferred = prefer_redis | prefer_memory | prefer_auto

record EnhancedCacheConfig =
  defaultTtl :: int
  maxMemorySize :: nat
  cleanupInterval :: nat
  preferredBackend :: preferred
  enableMemoryCache :: bool

record 'v EnhancedCacheManager =
  redisCache :: "RedisCacheManager option"
  memoryCache :: "(key \<times> 'v CacheItem) list"
  config :: EnhancedCacheConfig
  stats :: CacheStats
  cleanupTimer :: "nat option"
  backendType :: backend

definition default_config :: EnhancedCacheConfig where
  "default_config =
     \<lparr> defaultTtl = 300, maxMemorySize = 50 * 1024 * 1024, cleanupInterval = 60000,
       preferredBackend = prefer_auto, enableMemoryCache = True \<rparr>"

definition determineBackend :: "'v EnhancedCacheManager \<Rightarrow> backend" where
  "determineBackend s =
     (case preferredBackend (config s) of
        prefer_redis \<Rightarrow> redis_backend
      | prefer_memory \<Rightarrow> memory_backend
      | prefer_auto \<Rightarrow> memory_backend)"

definition initializeMemoryOnly :: "'v EnhancedCacheManager \<Rightarrow> 'v EnhancedCacheManager" where
  "initializeMemoryOnly s =
     s\<lparr>backendType := memory_backend,
       stats := (stats s)\<lparr>backend_type := memory_backend, backend_status := connected\<rparr>\<rparr>"

definition initializeBackend :: "'v EnhancedCacheManager \<Rightarrow> 'v EnhancedCacheManager" where
  "initializeBackend s =
     (case determineBackend s of
        redis_backend \<Rightarrow> initializeMemoryOnly s
      | memory_backend \<Rightarrow> initializeMemoryOnly s)"

definition startCleanupTimer :: "'v EnhancedCacheManager \<Rightarrow> 'v EnhancedCacheManager" where
  "startCleanupTimer s = s\<lparr>cleanupTimer := Some (cleanupInterval (config s))\<rparr>"

text \<open>The constructor, on the configuration already merged with the defaults.\<close>

definition EnhancedCacheManager_new :: "EnhancedCacheConfig \<Rightarrow> 'v EnhancedCacheManager" where
  "EnhancedCacheManager_new cfg =
     startCleanupTimer (initializeBackend
       \<lparr> redisCache = None, memoryCache = [], config = cfg,
         stats = \<lparr> total_requests = 0, total_hits = 0, total_misses = 0, total_hitRate = 0,
                   backend_type = memory_backend, backend_status = disabled, backend_hitRate = 0,
                   memoryCache_size = 0, memoryCache_hitRate = 0 \<rparr>,
         cleanupTimer = None, backendType = memory_backend \<rparr>)"

definition isExpired :: "int \<Rightarrow> 'v CacheItem \<Rightarrow> bool" where
  "isExpired now item = (now - timestamp item > ttl item * 1000)"

definition updateAccessStats :: "int \<Rightarrow> 'v CacheItem \<Rightarrow> 'v CacheItem" where
  "updateAccessStats now item = item\<lparr>accessCount := accessCount item + 1, lastAccessed := now\<rparr>"

datatype tier = memory_tier | backend_tier

definition calculateHitRate :: "'v EnhancedCacheManager \<Rightarrow> tier \<Rightarrow> real" where
  "calculateHitRate s t =
     (if total_requests (stats s) = 0 then 0
      else case t of
             memory_tier \<Rightarrow> memoryCache_hitRate (stats s)
           | backend_tier \<Rightarrow> backend_hitRate (stats s))"

text \<open>
  \<^verbatim>\<open>Array.prototype.sort\<close> is stable, as is \<open>sort_key\<close>. \<^verbatim>\<open>Math.floor(entries.length * 0.1)\<close> is
  \<open>length entries div 10\<close> (the double nearest to a tenth times an integer below \<open>2^53\<close>
  never rounds across an integer).
\<close>

definition checkMemoryLimit :: "'v EnhancedCacheManager \<Rightarrow> 'v EnhancedCacheManager" where
  "checkMemoryLimit s =
     (if length (memoryCache s) > 1000 then
        let entries = sort_key (\<lambda>e. lastAccessed (snd e)) (memoryCache s);
            toDelete = take (length entries div 10) entries
        in s\<lparr>memoryCache := fold (\<lambda>e m. AList.delete (fst e) m) toDelete (memoryCache s)\<rparr>
      else s)"

definition cleanupExpiredItems :: "int \<Rightarrow> 'v EnhancedCacheManager \<Rightarrow> 'v EnhancedCacheManager" where
  "cleanupExpiredItems now s =
     (let expiredKeys =
            map fst (filter (\<lambda>e. now - timestamp (snd e) > ttl (snd e) * 1000) (memoryCache s))
      in s\<lparr>memoryCache := fold AList.delete expiredKeys (memoryCache s)\<rparr>)"

text \<open>
  A call into the remote tier client from the facade: the client object is the one held
  in \<open>redisCache\<close>, and its new state is stored back whether the call returns or throws.
\<close>

definition via_redis ::
  "'v EnhancedCacheManager \<Rightarrow> (RedisCacheManager \<Rightarrow> (RedisCacheManager, 'a) outcome) \<Rightarrow>
   RedisCacheManager \<Rightarrow> ('v EnhancedCacheManager, 'a) outcome" where
  "via_redis s f r =
     (case f r of
        Inl (e, r') \<Rightarrow> Inl (e, s\<lparr>redisCache := Some r'\<rparr>)
      | Inr (a, r') \<Rightarrow> Inr (a, s\<lparr>redisCache := Some r'\<rparr>))"

definition backend_error :: "'v EnhancedCacheManager \<Rightarrow> 'v EnhancedCacheManager" where
  "backend_error s = s\<lparr>stats := (stats s)\<lparr>backend_status := error\<rparr>\<rparr>"

text \<open>
  The guard \<^verbatim>\<open>this.backendType === 'redis' && this.redisCache\<close>: the client to call, if any.
\<close>

definition active_redis :: "'v EnhancedCacheManager \<Rightarrow> RedisCacheManager option" where
  "active_redis s = (if backendType s = redis_backend then redisCache s else None)"

text \<open>The test \<^verbatim>\<open>memoryItem && !this.isExpired(memoryItem)\<close> of \<^verbatim>\<open>get\<close> and \<^verbatim>\<open>exists\<close>.\<close>

definition live_item :: "int \<Rightarrow> 'v EnhancedCacheManager \<Rightarrow> key \<Rightarrow> 'v CacheItem option" where
  "live_item now s k =
     (case map_of (memoryCache s) k of
        None \<Rightarrow> None
      | Some memoryItem \<Rightarrow> if \<not> isExpired now memoryItem then Some memoryItem else None)"

text \<open>
  The public operations carry the suffix \<open>_e\<close> (those of \<^verbatim>\<open>RedisCacheManager\<close> carry \<open>_r\<close>).
  Inside the \<^verbatim>\<open>try\<close> of \<^verbatim>\<open>get\<close>, \<open>Some result\<close> is the \<^verbatim>\<open>return result\<close> of the remote hit and
  \<open>None\<close> is falling out of the block, to the miss counter.
\<close>

definition get_e ::
  "'v world \<Rightarrow> int \<Rightarrow> 'v EnhancedCacheManager \<Rightarrow> key \<Rightarrow> ('v EnhancedCacheManager, 'v option) outcome" where
  "get_e w now s k =
     (let s1 = s\<lparr>stats := (stats s)\<lparr>total_requests := total_requests (stats s) + 1\<rparr>\<rparr> in
      case (if enableMemoryCache (config s1) then live_item now s1 k else None) of
        Some memoryItem \<Rightarrow>
          (let s2 = s1\<lparr>memoryCache :=
                      AList.update k (updateAccessStats now memoryItem) (memoryCache s1)\<rparr>;
               s3 = s2\<lparr>stats := (stats s2)\<lparr>memoryCache_hitRate := calculateHitRate s2 memory_tier\<rparr>\<rparr>;
               s4 = s3\<lparr>stats := (stats s3)\<lparr>total_hits := total_hits (stats s3) + 1\<rparr>\<rparr>
           in Inr (Some (data memoryItem), s4))
      | None \<Rightarrow>
          (case (case active_redis s1 of
                   None \<Rightarrow> Inr (None, s1)
                 | Some r \<Rightarrow>
                     try_catch
                       (case via_redis s1 (\<lambda>r. get_r w r k) r of
                          Inl x \<Rightarrow> Inl x
                        | Inr (None, s2) \<Rightarrow> Inr (None, s2)
                        | Inr (Some result, s2) \<Rightarrow>
                            (let s3 = (if enableMemoryCache (config s2)
                                       then s2\<lparr>memoryCache :=
                                              AList.update k
                                                \<lparr> data = result, timestamp = now,
                                                  ttl = defaultTtl (config s2),
                                                  accessCount = 1, lastAccessed = now \<rparr>
                                                (memoryCache s2)\<rparr>
                                       else s2);
                                 s4 = s3\<lparr>stats := (stats s3)\<lparr>backend_hitRate :=
                                          calculateHitRate s3 backend_tier\<rparr>\<rparr>;
                                 s5 = s4\<lparr>stats := (stats s4)\<lparr>total_hits :=
                                          total_hits (stats s4) + 1\<rparr>\<rparr>
                             in Inr (Some result, s5)))
                       (\<lambda>e s'. Inr (None, backend_error s'))) of
             Inl x \<Rightarrow> Inl x
           | Inr (Some result, s') \<Rightarrow> Inr (Some result, s')
           | Inr (None, s') \<Rightarrow>
               Inr (None, s'\<lparr>stats := (stats s')\<lparr>total_misses := total_misses (stats s') + 1\<rparr>\<rparr>)))"

text \<open>
  \<^verbatim>\<open>set\<close> in its three parts: the write to the memory tier, the write to the remote tier
  inside \<^verbatim>\<open>try\<close>, the capacity check. \<open>ttl_arg = None\<close> is the omitted argument, which takes
  \<^verbatim>\<open>this.config.defaultTtl\<close>.
\<close>

definition ttl_of :: "'v EnhancedCacheManager \<Rightarrow> int option \<Rightarrow> int" where
  "ttl_of s ttl_arg = (case ttl_arg of None \<Rightarrow> defaultTtl (config s) | Some t \<Rightarrow> t)"

definition set_memory ::
  "int \<Rightarrow> 'v EnhancedCacheManager \<Rightarrow> key \<Rightarrow> 'v \<Rightarrow> int option \<Rightarrow> 'v EnhancedCacheManager" where
  "set_memory now s k d ttl_arg =
     (let item = \<lparr> data = d, timestamp = now, ttl = ttl_of s ttl_arg,
                   accessCount = 0, lastAccessed = now \<rparr>
      in if enableMemoryCache (config s)
         then s\<lparr>memoryCache := AList.update k item (memoryCache s)\<rparr> else s)"

definition set_backend ::
  "'v world \<Rightarrow> 'v EnhancedCacheManager \<Rightarrow> key \<Rightarrow> 'v \<Rightarrow> int option \<Rightarrow>
   ('v EnhancedCacheManager, unit) outcome" where
  "set_backend w s k d ttl_arg =
     (case active_redis s of
        None \<Rightarrow> Inr ((), s)
      | Some r \<Rightarrow>
          try_catch (via_redis s (\<lambda>r. set_r w r k d (ttl_of s ttl_arg)) r)
            (\<lambda>e s'. Inr ((), backend_error s')))"

definition set_e ::
  "'v world \<Rightarrow> int \<Rightarrow> 'v EnhancedCacheManager \<Rightarrow> key \<Rightarrow> 'v \<Rightarrow> int option \<Rightarrow>
   ('v EnhancedCacheManager, unit) outcome" where
  "set_e w now s k d ttl_arg =
     (case set_backend w (set_memory now s k d ttl_arg) k d ttl_arg of
        Inl x \<Rightarrow> Inl x
      | Inr (_, s2) \<Rightarrow> Inr ((), checkMemoryLimit s2))"

definition delete_e ::
  "'v world \<Rightarrow> 'v EnhancedCacheManager \<Rightarrow> key \<Rightarrow> ('v EnhancedCacheManager, unit) outcome" where
  "delete_e w s k =
     (let s1 = (if enableMemoryCache (config s)
                then s\<lparr>memoryCache := AList.delete k (memoryCache s)\<rparr> else s)
      in case active_redis s1 of
           None \<Rightarrow> Inr ((), s1)
         | Some r \<Rightarrow>
             try_catch (via_redis s1 (\<lambda>r. delete_r w r k) r)
               (\<lambda>e s'. Inr ((), backend_error s')))"

text \<open>
  In \<^verbatim>\<open>exists\<close> the \<^verbatim>\<open>try\<close> returns the client's answer (\<open>Some b\<close>); the handler falls through
  to the final \<^verbatim>\<open>return false\<close> (\<open>None\<close>).
\<close>

definition exists_e ::
  "'v world \<Rightarrow> int \<Rightarrow> 'v EnhancedCacheManager \<Rightarrow> key \<Rightarrow> ('v EnhancedCacheManager, bool) outcome" where
  "exists_e w now s k =
     (if enableMemoryCache (config s) \<and> live_item now s k \<noteq> None then Inr (True, s)
      else
        case active_redis s of
          None \<Rightarrow> Inr (False, s)
        | Some r \<Rightarrow>
            (case try_catch
                    (case via_redis s (\<lambda>r. exists_r w r k) r of
                       Inl x \<Rightarrow> Inl x
                     | Inr (b, s') \<Rightarrow> Inr (Some b, s'))
                    (\<lambda>e s'. Inr (None, backend_error s')) of
               Inl x \<Rightarrow> Inl x
             | Inr (Some b, s') \<Rightarrow> Inr (b, s')
             | Inr (None, s') \<Rightarrow> Inr (False, s')))"

fun mget_e ::
  "'v world \<Rightarrow> int \<Rightarrow> 'v EnhancedCacheManager \<Rightarrow> key list \<Rightarrow>
   ('v EnhancedCacheManager, 'v option list) outcome" where
  "mget_e w now s [] = Inr ([], s)"
| "mget_e w now s (k # ks) =
     (case get_e w now s k of
        Inl x \<Rightarrow> Inl x
      | Inr (result, s1) \<Rightarrow>
          (case mget_e w now s1 ks of
             Inl x \<Rightarrow> Inl x
           | Inr (results, s2) \<Rightarrow> Inr (result # results, s2)))"

text \<open>
  \<^verbatim>\<open>mset\<close> starts every \<^verbatim>\<open>set\<close> inside \<^verbatim>\<open>items.map\<close> and awaits them together. A \<^verbatim>\<open>set\<close> runs
  without interruption up to its first \<^verbatim>\<open>await\<close>, which it only meets when the remote tier
  is active. So with no remote tier the calls run one after the other (\<open>mset_seq\<close>); with
  a remote tier every memory write comes first, then the remote writes complete, then
  each call runs its capacity check.
\<close>

type_synonym 'v entry = "key \<times> 'v \<times> int option"

fun mset_seq ::
  "'v world \<Rightarrow> int \<Rightarrow> 'v EnhancedCacheManager \<Rightarrow> 'v entry list \<Rightarrow>
   ('v EnhancedCacheManager, unit) outcome" where
  "mset_seq w now s [] = Inr ((), s)"
| "mset_seq w now s ((k, d, t) # items) =
     (case set_e w now s k d t of
        Inl x \<Rightarrow> Inl x
      | Inr (_, s1) \<Rightarrow> mset_seq w now s1 items)"

fun mset_memory :: "int \<Rightarrow> 'v EnhancedCacheManager \<Rightarrow> 'v entry list \<Rightarrow> 'v EnhancedCacheManager" where
  "mset_memory now s [] = s"
| "mset_memory now s ((k, d, t) # items) = mset_memory now (set_memory now s k d t) items"

fun mset_backend ::
  "'v world \<Rightarrow> 'v EnhancedCacheManager \<Rightarrow> 'v entry list \<Rightarrow> ('v EnhancedCacheManager, unit) outcome" where
  "mset_backend w s [] = Inr ((), s)"
| "mset_backend w s ((k, d, t) # items) =
     (case set_backend w s k d t of
        Inl x \<Rightarrow> Inl x
      | Inr (_, s1) \<Rightarrow> mset_backend w s1 items)"

definition mset_e ::
  "'v world \<Rightarrow> int \<Rightarrow> 'v EnhancedCacheManager \<Rightarrow> 'v entry list \<Rightarrow>
   ('v EnhancedCacheManager, unit) outcome" where
  "mset_e w now s items =
     (if active_redis s = None then mset_seq w now s items
      else
        case mset_backend w (mset_memory now s items) items of
          Inl x \<Rightarrow> Inl x
        | Inr (_, s2) \<Rightarrow> Inr ((), (checkMemoryLimit ^^ length items) s2))"

definition clear_e :: "'v world \<Rightarrow> 'v EnhancedCacheManager \<Rightarrow> ('v EnhancedCacheManager, unit) outcome" where
  "clear_e w s =
     (let s1 = (if enableMemoryCache (config s) then s\<lparr>memoryCache := []\<rparr> else s)
      in case (case active_redis s1 of
                 None \<Rightarrow> Inr ((), s1)
               | Some r \<Rightarrow>
                   try_catch (via_redis s1 (clear_r w) r) (\<lambda>e s'. Inr ((), backend_error s'))) of
           Inl x \<Rightarrow> Inl x
         | Inr (_, s2) \<Rightarrow>
             Inr ((), s2\<lparr>stats :=
               \<lparr> total_requests = 0, total_hits = 0, total_misses = 0, total_hitRate = 0,
                 backend_type = backendType s2, backend_status = connected, backend_hitRate = 0,
                 memoryCache_size = 0, memoryCache_hitRate = 0 \<rparr>\<rparr>))"

text \<open>\<^verbatim>\<open>getStats\<close> writes the size and the hit rate into \<^verbatim>\<open>this.stats\<close> and returns a copy.\<close>

definition getStats_e :: "'v EnhancedCacheManager \<Rightarrow> CacheStats \<times> 'v EnhancedCacheManager" where
  "getStats_e s =
     (let s1 = s\<lparr>stats := (stats s)\<lparr>memoryCache_size := length (memoryCache s)\<rparr>\<rparr>;
          s2 = s1\<lparr>stats := (stats s1)\<lparr>total_hitRate :=
                  (if total_requests (stats s1) > 0
                   then real (total_hits (stats s1)) / real (total_requests (stats s1))
                   else 0)\<rparr>\<rparr>
      in (stats s2, s2))"

definition getBackendType :: "'v EnhancedCacheManager \<Rightarrow> backend" where
  "getBackendType s = backendType s"

definition destroy_e :: "'v world \<Rightarrow> 'v EnhancedCacheManager \<Rightarrow> ('v EnhancedCacheManager, unit) outcome" where
  "destroy_e w s =
     (let s1 = (if cleanupTimer s \<noteq> None then s\<lparr>cleanupTimer := None\<rparr> else s);
          s2 = s1\<lparr>memoryCache := []\<rparr>
      in case redisCache s2 of
           None \<Rightarrow> Inr ((), s2)
         | Some r \<Rightarrow>
             (case via_redis s2 (destroy_r w) r of
                Inl x \<Rightarrow> Inl x
              | Inr (_, s3) \<Rightarrow> Inr ((), s3\<lparr>redisCache := None\<rparr>)))"

text \<open>A tick of the interval timer runs the sweep, as long as the timer is not cleared.\<close>

definition sweep :: "int \<Rightarrow> 'v EnhancedCacheManager \<Rightarrow> 'v EnhancedCacheManager" where
  "sweep now s = (if cleanupTimer s \<noteq> None then cleanupExpiredItems now s else s)"

subsection \<open>Sequences of operations on the facade\<close>

datatype 'v op =
    Get key
  | Set key 'v "int option"
  | Delete key
  | Exists key
  | MGet "key list"
  | MSet "'v entry list"
  | Clear
  | GetStats
  | Sweep

text \<open>
  A step is an operation with the clock reading and the behaviour of the environment
  while it runs. A run stops at the first operation that throws.
\<close>

type_synonym 'v step = "'v world \<times> int \<times> 'v op"

fun exec :: "'v step \<Rightarrow> 'v EnhancedCacheManager \<Rightarrow> ('v EnhancedCacheManager, unit) outcome" where
  "exec (w, now, Get k) s =
     (case get_e w now s k of Inl x \<Rightarrow> Inl x | Inr (_, s') \<Rightarrow> Inr ((), s'))"
| "exec (w, now, Set k d t) s = set_e w now s k d t"
| "exec (w, now, Delete k) s = delete_e w s k"
| "exec (w, now, Exists k) s =
     (case exists_e w now s k of Inl x \<Rightarrow> Inl x | Inr (_, s') \<Rightarrow> Inr ((), s'))"
| "exec (w, now, MGet ks) s =
     (case mget_e w now s ks of Inl x \<Rightarrow> Inl x | Inr (_, s') \<Rightarrow> Inr ((), s'))"
| "exec (w, now, MSet items) s = mset_e w now s items"
| "exec (w, now, Clear) s = clear_e w s"
| "exec (w, now, GetStats) s = Inr ((), snd (getStats_e s))"
| "exec (w, now, Sweep) s = Inr ((), sweep now s)"

fun run :: "'v step list \<Rightarrow> 'v EnhancedCacheManager \<Rightarrow> ('v EnhancedCacheManager, unit) outcome" where
  "run [] s = Inr ((), s)"
| "run (st # sts) s = (case exec st s of Inl x \<Rightarrow> Inl x | Inr (_, s') \<Rightarrow> run sts s')"

subsection \<open>Failing calls of the remote tier\<close>

text \<open>
  What it means for the remote call of an operation to fail: the command is rejected (a
  network error, a timeout), or the payload cannot be encoded or decoded.
\<close>

definition get_fails :: "'v world \<Rightarrow> key \<Rightarrow> bool" where
  "get_fails w k =
     (case redis_get w k of
        Inl _ \<Rightarrow> True
      | Inr None \<Rightarrow> False
      | Inr (Some p) \<Rightarrow> (case JSON_parse w p of Inl _ \<Rightarrow> True | Inr _ \<Rightarrow> False))"

definition set_fails :: "'v world \<Rightarrow> key \<Rightarrow> 'v \<Rightarrow> int \<Rightarrow> bool" where
  "set_fails w k d ttlSeconds =
     (case JSON_stringify w d of
        Inl _ \<Rightarrow> True
      | Inr p \<Rightarrow> (case redis_setex w k ttlSeconds p of Inl _ \<Rightarrow> True | Inr _ \<Rightarrow> False))"

definition delete_fails :: "'v world \<Rightarrow> key \<Rightarrow> bool" where
  "delete_fails w k = (case redis_del w k of Inl _ \<Rightarrow> True | Inr _ \<Rightarrow> False)"

text \<open>The error counter of the remote tier client that the facade holds.\<close>

definition errors_e :: "'v EnhancedCacheManager \<Rightarrow> nat" where
  "errors_e s = (case redisCache s of None \<Rightarrow> 0 | Some r \<Rightarrow> errors (stats_r r))"

subsection \<open>Sequences of operations on the remote tier client\<close>

datatype 'v op_r =
    Get_r key
  | Set_r key 'v int
  | Delete_r key
  | Exists_r key
  | Clear_r
  | Event event

fun exec_r :: "'v world \<times> 'v op_r \<Rightarrow> RedisCacheManager \<Rightarrow> (RedisCacheManager, unit) outcome" where
  "exec_r (w, Get_r k) r =
     (case get_r w r k of Inl x \<Rightarrow> Inl x | Inr (_, r') \<Rightarrow> Inr ((), r'))"
| "exec_r (w, Set_r k d t) r = set_r w r k d t"
| "exec_r (w, Delete_r k) r = delete_r w r k"
| "exec_r (w, Exists_r k) r =
     (case exists_r w r k of Inl x \<Rightarrow> Inl x | Inr (_, r') \<Rightarrow> Inr ((), r'))"
| "exec_r (w, Clear_r) r = clear_r w r"
| "exec_r (w, Event ev) r = Inr ((), fst (on_event ev r))"

fun run_r :: "('v world \<times> 'v op_r) list \<Rightarrow> RedisCacheManager \<Rightarrow> (RedisCacheManager, unit) outcome" where
  "run_r [] r = Inr ((), r)"
| "run_r (st # sts) r = (case exec_r st r of Inl x \<Rightarrow> Inl x | Inr (_, r') \<Rightarrow> run_r sts r')"

subsection \<open>CacheManager: the older multi-level cache\<close>

text \<open>
  \<^verbatim>\<open>CacheManager\<close> keeps the TTL of an item in milliseconds, limits the memory tier by an estimate
  of its size in bytes and evicts a fifth of the entries. Its operations carry the suffix
  \<open>_c\<close>. Its \<^verbatim>\<open>redisClient\<close> is an untyped client; the environment \<open>world_c\<close> gives what its
  methods and \<^verbatim>\<open>JSON\<close> do. \<^verbatim>\<open>JSON.parse(redisData) as CacheItem\<close> either throws or yields an item.
  The length of a key is its number of characters.
\<close>

record 'v world_c =
  client_get :: "key \<Rightarrow> exn + string option"
  client_setex :: "key \<Rightarrow> int \<Rightarrow> string \<Rightarrow> exn + unit"
  client_del :: "key \<Rightarrow> exn + unit"
  client_flushdb :: "exn + unit"
  parse_item :: "string \<Rightarrow> exn + 'v CacheItem"
  stringify_item :: "'v CacheItem \<Rightarrow> exn + string"

datatype connection = conn_connected | conn_disconnected | conn_error

record CacheConfig =
  defaultTtl_c :: int
  maxMemorySize_c :: nat
  cleanupInterval_c :: nat
  enableRedis :: bool

record CacheStats_c =
  mc_size :: nat
  mc_hitRate :: real
  mc_missRate :: real
  mc_evictionCount :: nat
  rc_enabled :: bool
  rc_hitRate :: real
  rc_missRate :: real
  rc_connectionStatus :: connection
  t_requests :: nat
  t_hits :: nat
  t_misses :: nat
  t_hitRate :: real

record 'v CacheManager =
  memoryCache_c :: "(key \<times> 'v CacheItem) list"
  redisClient :: "Redis option"
  config_c :: CacheConfig
  stats_c :: CacheStats_c
  cleanupTimer_c :: "nat option"

definition initializeStats :: "CacheConfig \<Rightarrow> CacheStats_c" where
  "initializeStats cfg =
     \<lparr> mc_size = 0, mc_hitRate = 0, mc_missRate = 0, mc_evictionCount = 0,
       rc_enabled = enableRedis cfg, rc_hitRate = 0, rc_missRate = 0,
       rc_connectionStatus = conn_disconnected,
       t_requests = 0, t_hits = 0, t_misses = 0, t_hitRate = 0 \<rparr>"

text \<open>
  The constructor. \<^verbatim>\<open>initializeStats\<close> reads the configuration only. \<^verbatim>\<open>initializeRedis\<close> sets
  \<^verbatim>\<open>enableRedis\<close> to false and nothing else; \<^verbatim>\<open>redisClient\<close> is assigned nowhere.
\<close>

definition CacheManager_new :: "CacheConfig \<Rightarrow> 'v CacheManager" where
  "CacheManager_new cfg =
     \<lparr> memoryCache_c = [], redisClient = None, config_c = cfg\<lparr>enableRedis := False\<rparr>,
       stats_c = initializeStats cfg, cleanupTimer_c = Some (cleanupInterval_c cfg) \<rparr>"

definition isExpired_c :: "int \<Rightarrow> 'v CacheItem \<Rightarrow> bool" where
  "isExpired_c now item = (now - timestamp item > ttl item)"

datatype tier_c = tier_memory | tier_redis | tier_total

definition calculateHitRate_c :: "'v CacheManager \<Rightarrow> tier_c \<Rightarrow> real" where
  "calculateHitRate_c s t =
     (if t_requests (stats_c s) = 0 then 0
      else case t of
             tier_memory \<Rightarrow> mc_hitRate (stats_c s)
           | tier_redis \<Rightarrow> rc_hitRate (stats_c s)
           | tier_total \<Rightarrow> real (t_hits (stats_c s)) / real (t_requests (stats_c s)))"

definition redis_on :: "'v CacheManager \<Rightarrow> bool" where
  "redis_on s = (redisClient s \<noteq> None \<and> enableRedis (config_c s))"

definition connection_error :: "'v CacheManager \<Rightarrow> 'v CacheManager" where
  "connection_error s = s\<lparr>stats_c := (stats_c s)\<lparr>rc_connectionStatus := conn_error\<rparr>\<rparr>"

text \<open>
  In the \<^verbatim>\<open>try\<close> of \<^verbatim>\<open>get\<close>, \<open>Some v\<close> is the \<^verbatim>\<open>return item.data\<close> of a remote hit and \<open>None\<close> is
  leaving the block. An empty reply is as falsy as \<^verbatim>\<open>null\<close>.
\<close>

definition get_c ::
  "'v world_c \<Rightarrow> int \<Rightarrow> 'v CacheManager \<Rightarrow> key \<Rightarrow> ('v CacheManager, 'v option) outcome" where
  "get_c w now s k =
     (let s1 = s\<lparr>stats_c := (stats_c s)\<lparr>t_requests := t_requests (stats_c s) + 1\<rparr>\<rparr> in
      case (case map_of (memoryCache_c s1) k of
              None \<Rightarrow> None
            | Some memoryItem \<Rightarrow> if \<not> isExpired_c now memoryItem then Some memoryItem else None) of
        Some memoryItem \<Rightarrow>
          (let s2 = s1\<lparr>memoryCache_c :=
                      AList.update k (updateAccessStats now memoryItem) (memoryCache_c s1)\<rparr>;
               s3 = s2\<lparr>stats_c := (stats_c s2)\<lparr>mc_hitRate := calculateHitRate_c s2 tier_memory\<rparr>\<rparr>;
               s4 = s3\<lparr>stats_c := (stats_c s3)\<lparr>t_hits := t_hits (stats_c s3) + 1\<rparr>\<rparr>
           in Inr (Some (data memoryItem), s4))
      | None \<Rightarrow>
          (case (if redis_on s1 then
                   try_catch
                     (case client_get w k of
                        Inl e \<Rightarrow> Inl (e, s1)
                      | Inr None \<Rightarrow> Inr (None, s1)
                      | Inr (Some redisData) \<Rightarrow>
                          if redisData = [] then Inr (None, s1)
                          else
                            (case parse_item w redisData of
                               Inl e \<Rightarrow> Inl (e, s1)
                             | Inr item \<Rightarrow>
                                 if \<not> isExpired_c now item then
                                   (let s2 = s1\<lparr>memoryCache_c :=
                                               AList.update k item (memoryCache_c s1)\<rparr>;
                                        s3 = s2\<lparr>stats_c := (stats_c s2)\<lparr>rc_hitRate :=
                                               calculateHitRate_c s2 tier_redis\<rparr>\<rparr>;
                                        s4 = s3\<lparr>stats_c := (stats_c s3)\<lparr>t_hits :=
                                               t_hits (stats_c s3) + 1\<rparr>\<rparr>
                                    in Inr (Some (data item), s4))
                                 else
                                   (case client_del w k of
                                      Inl e \<Rightarrow> Inl (e, s1)
                                    | Inr _ \<Rightarrow> Inr (None, s1))))
                     (\<lambda>e s'. Inr (None, connection_error s'))
                 else Inr (None, s1)) of
             Inl x \<Rightarrow> Inl x
           | Inr (Some v, s') \<Rightarrow> Inr (Some v, s')
           | Inr (None, s') \<Rightarrow>
               Inr (None, s'\<lparr>stats_c := (stats_c s')\<lparr>t_misses := t_misses (stats_c s') + 1\<rparr>\<rparr>)))"

definition delete_c :: "'v world_c \<Rightarrow> 'v CacheManager \<Rightarrow> key \<Rightarrow> ('v CacheManager, unit) outcome" where
  "delete_c w s k =
     (let s1 = s\<lparr>memoryCache_c := AList.delete k (memoryCache_c s)\<rparr> in
      if redis_on s1 then
        try_catch
          (case client_del w k of Inl e \<Rightarrow> Inl (e, s1) | Inr _ \<Rightarrow> Inr ((), s1))
          (\<lambda>e s'. Inr ((), s'))
      else Inr ((), s1))"

definition clear_c :: "'v world_c \<Rightarrow> 'v CacheManager \<Rightarrow> ('v CacheManager, unit) outcome" where
  "clear_c w s =
     (let s1 = s\<lparr>memoryCache_c := []\<rparr> in
      case (if redis_on s1 then
              try_catch
                (case client_flushdb w of Inl e \<Rightarrow> Inl (e, s1) | Inr _ \<Rightarrow> Inr ((), s1))
                (\<lambda>e s'. Inr ((), s'))
            else Inr ((), s1)) of
        Inl x \<Rightarrow> Inl x
      | Inr (_, s2) \<Rightarrow> Inr ((), s2\<lparr>stats_c := initializeStats (config_c s2)\<rparr>))"

text \<open>
  \<^verbatim>\<open>getStats\<close> builds its answer from \<^verbatim>\<open>this.stats\<close> and changes nothing.
\<close>

definition getStats_c :: "'v CacheManager \<Rightarrow> CacheStats_c" where
  "getStats_c s =
     (stats_c s)
       \<lparr> mc_size := length (memoryCache_c s),
         mc_hitRate := calculateHitRate_c s tier_memory,
         mc_missRate := 1 - calculateHitRate_c s tier_memory,
         rc_hitRate := calculateHitRate_c s tier_redis,
         rc_missRate := 1 - calculateHitRate_c s tier_redis,
         t_hitRate := calculateHitRate_c s tier_total \<rparr>"

text \<open>
  \<^verbatim>\<open>evictLeastRecentlyUsed\<close>: the loop over the first \<^verbatim>\<open>Math.ceil(items.length * 0.2)\<close> entries of
  the sorted array, each removed with \<^verbatim>\<open>delete\<close> and counted.
\<close>

fun evict_loop ::
  "'v world_c \<Rightarrow> 'v CacheManager \<Rightarrow> (key \<times> 'v CacheItem) list \<Rightarrow> ('v CacheManager, unit) outcome" where
  "evict_loop w s [] = Inr ((), s)"
| "evict_loop w s (e # es) =
     (case delete_c w s (fst e) of
        Inl x \<Rightarrow> Inl x
      | Inr (_, s1) \<Rightarrow>
          evict_loop w
            (s1\<lparr>stats_c := (stats_c s1)\<lparr>mc_evictionCount := mc_evictionCount (stats_c s1) + 1\<rparr>\<rparr>)
            es)"

definition evictLeastRecentlyUsed ::
  "'v world_c \<Rightarrow> 'v CacheManager \<Rightarrow> ('v CacheManager, unit) outcome" where
  "evictLeastRecentlyUsed w s =
     (let items = sort_key (\<lambda>e. lastAccessed (snd e)) (memoryCache_c s);
          evictCount = (length items + 4) div 5
      in evict_loop w s (take evictCount items))"

text \<open>
  \<^verbatim>\<open>estimateMemoryUsage\<close> calls \<^verbatim>\<open>JSON.stringify\<close> outside any \<^verbatim>\<open>try\<close>, so it can throw, and with it
  \<^verbatim>\<open>checkMemoryUsage\<close> and \<^verbatim>\<open>set\<close>.
\<close>

fun estimateMemoryUsage :: "'v world_c \<Rightarrow> (key \<times> 'v CacheItem) list \<Rightarrow> nat \<Rightarrow> exn + nat" where
  "estimateMemoryUsage w [] totalSize = Inr totalSize"
| "estimateMemoryUsage w ((k, item) # es) totalSize =
     (case stringify_item w item of
        Inl e \<Rightarrow> Inl e
      | Inr p \<Rightarrow> estimateMemoryUsage w es (totalSize + length k * 2 + length p * 2))"

definition checkMemoryUsage :: "'v world_c \<Rightarrow> 'v CacheManager \<Rightarrow> ('v CacheManager, unit) outcome" where
  "checkMemoryUsage w s =
     (case estimateMemoryUsage w (memoryCache_c s) 0 of
        Inl e \<Rightarrow> Inl (e, s)
      | Inr currentSize \<Rightarrow>
          if currentSize > maxMemorySize_c (config_c s) then evictLeastRecentlyUsed w s
          else Inr ((), s))"

definition set_c ::
  "'v world_c \<Rightarrow> int \<Rightarrow> 'v CacheManager \<Rightarrow> key \<Rightarrow> 'v \<Rightarrow> int option \<Rightarrow>
   ('v CacheManager, unit) outcome" where
  "set_c w now s k d ttl_arg =
     (let ttl0 = (case ttl_arg of None \<Rightarrow> defaultTtl_c (config_c s) | Some t \<Rightarrow> t);
          item = \<lparr> data = d, timestamp = now, ttl = ttl0 * 1000,
                   accessCount = 0, lastAccessed = now \<rparr>;
          s1 = s\<lparr>memoryCache_c := AList.update k item (memoryCache_c s)\<rparr>
      in case checkMemoryUsage w s1 of
           Inl x \<Rightarrow> Inl x
         | Inr (_, s2) \<Rightarrow>
             if redis_on s2 then
               try_catch
                 (case stringify_item w item of
                    Inl e \<Rightarrow> Inl (e, s2)
                  | Inr p \<Rightarrow>
                      (case client_setex w k ttl0 p of
                         Inl e \<Rightarrow> Inl (e, s2)
                       | Inr _ \<Rightarrow>
                           Inr ((), s2\<lparr>stats_c := (stats_c s2)\<lparr>rc_connectionStatus :=
                                        conn_connected\<rparr>\<rparr>)))
                 (\<lambda>e s'. Inr ((), connection_error s'))
             else Inr ((), s2))"

subsection \<open>Properties of states\<close>

text \<open>The statistics of the facade: the request count, and the two per-tier rates.\<close>

definition stats_inv :: "'v EnhancedCacheManager \<Rightarrow> bool" where
  "stats_inv s =
     (total_requests (stats s) = total_hits (stats s) + total_misses (stats s) \<and>
      backend_hitRate (stats s) = 0 \<and> memoryCache_hitRate (stats s) = 0)"

text \<open>The hit rate that the remote tier client keeps is a rate.\<close>

definition hitRate_ok :: "RedisCacheManager \<Rightarrow> bool" where
  "hitRate_ok r =
     (hits_r (stats_r r) \<le> requests_r (stats_r r) \<and>
      0 \<le> hitRate_r (stats_r r) \<and> hitRate_r (stats_r r) \<le> 1 \<and>
      (if requests_r (stats_r r) = 0 then hitRate_r (stats_r r) = 0 else True))"

text \<open>
  The memory tier of a facade without a remote tier client: no key twice, and no more
  entries than the limit of \<^verbatim>\<open>checkMemoryLimit\<close>.
\<close>

definition within_limit :: "'v EnhancedCacheManager \<Rightarrow> bool" where
  "within_limit s =
     (redisCache s = None \<and> distinct (map fst (memoryCache s)) \<and> length (memoryCache s) \<le> 1000)"

text \<open>No entry was accessed after the instant \<open>t\<close>.\<close>

definition accessed_by :: "int \<Rightarrow> 'v EnhancedCacheManager \<Rightarrow> bool" where
  "accessed_by t s = list_all (\<lambda>e. lastAccessed (snd e) \<le> t) (memoryCache s)"

text \<open>The clock reading of a step.\<close>

definition time_of :: "'v step \<Rightarrow> int" where
  "time_of st = fst (snd st)"

text \<open>
  A reconnect timer is pending; the client has used up its reconnect attempts; and the
  two facts that hold of a client from its construction on: the attempts never exceed the
  maximum, and a timer is only pending while an attempt is left.
\<close>

definition timer_pending :: "RedisCacheManager \<Rightarrow> bool" where
  "timer_pending r = (case reconnectTimer r of None \<Rightarrow> False | Some t \<Rightarrow> pending t)"

definition gave_up :: "RedisCacheManager \<Rightarrow> bool" where
  "gave_up r = (reconnectAttempts r \<ge> maxReconnectAttempts r)"

definition attempts_ok :: "RedisCacheManager \<Rightarrow> bool" where
  "attempts_ok r =
     (reconnectAttempts r \<le> maxReconnectAttempts r \<and>
      (if timer_pending r then reconnectAttempts r < maxReconnectAttempts r else True))"

subsection \<open>Concrete environments and states\<close>

text \<open>An environment in which every remote command is rejected.\<close>

definition failing_world :: "nat world" where
  "failing_world =
     \<lparr> redis_get = (\<lambda>k. Inl (JsError ''ETIMEDOUT'')),
       redis_setex = (\<lambda>k t p. Inl (JsError ''ECONNRESET'')),
       redis_del = (\<lambda>k. Inl (JsError ''ECONNRESET'')),
       redis_exists = (\<lambda>k. Inl (JsError ''ECONNRESET'')),
       redis_flushdb = Inl (JsError ''ECONNRESET''),
       redis_disconnect = Inr (),
       JSON_parse = (\<lambda>p. Inr None),
       JSON_stringify = (\<lambda>v. Inr ''0'') \<rparr>"

text \<open>An environment in which the remote store is empty and accepts every command.\<close>

definition quiet_world :: "nat world" where
  "quiet_world =
     \<lparr> redis_get = (\<lambda>k. Inr None),
       redis_setex = (\<lambda>k t p. Inr ()),
       redis_del = (\<lambda>k. Inr ()),
       redis_exists = (\<lambda>k. Inr 0),
       redis_flushdb = Inr (),
       redis_disconnect = Inr (),
       JSON_parse = (\<lambda>p. Inr None),
       JSON_stringify = (\<lambda>v. Inr ''0'') \<rparr>"

text \<open>
  A client with an open connection, one that has used up its reconnect attempts, a facade
  that uses the connected client, and one that also holds an entry and a pending reconnect
  timer.
\<close>

definition connected_client :: RedisCacheManager where
  "connected_client = RedisCacheManager_new\<lparr>redis := Some RedisClient, isConnected := True\<rparr>"

definition exhausted_client :: RedisCacheManager where
  "exhausted_client = connected_client\<lparr>isConnected := False, reconnectAttempts := 5\<rparr>"

definition remote_facade :: "nat EnhancedCacheManager" where
  "remote_facade =
     (EnhancedCacheManager_new default_config)
       \<lparr>redisCache := Some connected_client, backendType := redis_backend\<rparr>"

definition busy_facade :: "nat EnhancedCacheManager" where
  "busy_facade =
     remote_facade
       \<lparr>redisCache := Some (connected_client\<lparr>reconnectTimer := Some \<lparr> delay = 1000, pending = True \<rparr>\<rparr>),
        memoryCache := [(''a'', \<lparr> data = 1, timestamp = 0, ttl = 5, accessCount = 0, lastAccessed = 0 \<rparr>)]\<rparr>"

text \<open>
  The facade as constructed with the default configuration; the same after some use, with
  one entry written at time 0 with a TTL of 5 s.
\<close>

definition fresh_facade :: "nat EnhancedCacheManager" where
  "fresh_facade = EnhancedCacheManager_new default_config"

definition stale_item :: "nat CacheItem" where
  "stale_item = \<lparr> data = 1, timestamp = 0, ttl = 5, accessCount = 2, lastAccessed = 20 \<rparr>"

definition used_facade :: "nat EnhancedCacheManager" where
  "used_facade =
     fresh_facade
       \<lparr>memoryCache := [(''a'', \<lparr> data = 1, timestamp = 0, ttl = 5, accessCount = 2, lastAccessed = 20 \<rparr>)],
        stats := (stats fresh_facade)\<lparr>total_requests := 3, total_hits := 2, total_misses := 1\<rparr>\<rparr>"




text \<open>A run that fills the memory tier: \<open>n\<close> writes of \<open>n\<close> different keys.\<close>

definition key_n :: "nat \<Rightarrow> key" where
  "key_n i = replicate (Suc i) CHR ''a''"

definition filler_item :: "nat CacheItem" where
  "filler_item = \<lparr> data = 0, timestamp = 0, ttl = 300, accessCount = 0, lastAccessed = 0 \<rparr>"

definition fill :: "nat \<Rightarrow> nat step list" where
  "fill n = map (\<lambda>i. (quiet_world, 0, Set (key_n i) 0 None)) [0..<n]"

definition filled :: "nat \<Rightarrow> nat EnhancedCacheManager" where
  "filled n = fresh_facade\<lparr>memoryCache := map (\<lambda>i. (key_n i, filler_item)) [0..<n]\<rparr>"

text \<open>
  A run that fills the memory tier at time 1000, and the state after a \<^verbatim>\<open>set\<close> of a new key at
  time 999, a clock reading before those of the entries stored.
\<close>

definition late_item :: "nat CacheItem" where
  "late_item = \<lparr> data = 0, timestamp = 1000, ttl = 300, accessCount = 0, lastAccessed = 1000 \<rparr>"

definition late_fill :: "nat \<Rightarrow> nat step list" where
  "late_fill n = map (\<lambda>i. (quiet_world, 1000, Set (key_n i) 0 None)) [0..<n]"

definition late_filled :: "nat \<Rightarrow> nat EnhancedCacheManager" where
  "late_filled n = fresh_facade\<lparr>memoryCache := map (\<lambda>i. (key_n i, late_item)) [0..<n]\<rparr>"

definition after_early_set :: "nat EnhancedCacheManager" where
  "after_early_set = checkMemoryLimit (set_memory 999 (late_filled 1000) ''b'' 7 (Some 5))"

section \<open>Verification\<close>

subsection \<open>No operation throws\<close>

lemma get_r_returns: "\<exists>a r'. get_r w r k = Inr (a, r')"
  by (auto simp: get_r_def try_catch_def Let_def split: sum.splits option.splits)

lemma set_r_returns: "\<exists>r'. set_r w r k d t = Inr ((), r')"
  by (auto simp: set_r_def try_catch_def split: sum.splits)

lemma delete_r_returns: "\<exists>r'. delete_r w r k = Inr ((), r')"
  by (auto simp: delete_r_def try_catch_def split: sum.splits)

lemma exists_r_returns: "\<exists>b r'. exists_r w r k = Inr (b, r')"
  by (auto simp: exists_r_def try_catch_def split: sum.splits)

lemma clear_r_returns: "\<exists>r'. clear_r w r = Inr ((), r')"
  by (auto simp: clear_r_def try_catch_def split: sum.splits)

lemma get_e_returns: "\<exists>a s'. get_e w now s k = Inr (a, s')"
  by (auto simp: get_e_def try_catch_def via_redis_def Let_def split: sum.splits option.splits prod.splits)

lemma set_backend_returns: "\<exists>s'. set_backend w s k d t = Inr ((), s')"
  using set_r_returns
  by (auto simp: set_backend_def try_catch_def via_redis_def split: sum.splits option.splits prod.splits)

lemma set_e_returns: "\<exists>s'. set_e w now s k d t = Inr ((), s')"
  using set_backend_returns[of w "set_memory now s k d t" k d t]
  by (auto simp: set_e_def)

lemma delete_e_returns: "\<exists>s'. delete_e w s k = Inr ((), s')"
  by (auto simp: delete_e_def try_catch_def via_redis_def Let_def split: sum.splits option.splits prod.splits)

lemma exists_e_returns: "\<exists>b s'. exists_e w now s k = Inr (b, s')"
  by (auto simp: exists_e_def try_catch_def via_redis_def Let_def split: sum.splits option.splits prod.splits)

lemma clear_e_returns: "\<exists>s'. clear_e w s = Inr ((), s')"
  by (auto simp: clear_e_def try_catch_def via_redis_def Let_def split: sum.splits option.splits prod.splits)

lemma mget_e_returns: "\<exists>a s'. mget_e w now s ks = Inr (a, s')"
proof (induction ks arbitrary: s)
  case Nil
  then show ?case by simp
next
  case (Cons k ks)
  obtain a s1 where g: "get_e w now s k = Inr (a, s1)" using get_e_returns by blast
  obtain b s2 where "mget_e w now s1 ks = Inr (b, s2)" using Cons.IH by blast
  with g show ?case by simp
qed

lemma mset_seq_returns: "\<exists>s'. mset_seq w now s items = Inr ((), s')"
proof (induction items arbitrary: s)
  case Nil
  then show ?case by simp
next
  case (Cons it items)
  obtain k d t where it: "it = (k, d, t)" by (cases it) auto
  obtain s1 where g: "set_e w now s k d t = Inr ((), s1)" using set_e_returns[of w now s k d t] by auto
  with Cons.IH[of s1] it show ?case by simp
qed

lemma mset_backend_returns: "\<exists>s'. mset_backend w s items = Inr ((), s')"
proof (induction items arbitrary: s)
  case Nil
  then show ?case by simp
next
  case (Cons it items)
  obtain k d t where it: "it = (k, d, t)" by (cases it) auto
  obtain s1 where g: "set_backend w s k d t = Inr ((), s1)" using set_backend_returns[of w s k d t] by auto
  with Cons.IH[of s1] it show ?case by simp
qed

lemma mset_e_returns: "\<exists>s'. mset_e w now s items = Inr ((), s')"
  using mset_seq_returns[of w now s items] mset_backend_returns[of w "mset_memory now s items" items]
  by (auto simp: mset_e_def)

lemma exec_returns: "\<exists>s'. exec st s = Inr ((), s')"
proof -
  obtain w now o' where st: "st = (w, now, o')" by (cases st) auto
  show ?thesis
  proof (cases o')
    case (Get k) with st get_e_returns[of w now s k] show ?thesis by auto
  next
    case (Set k d t) with st set_e_returns[of w now s k d t] show ?thesis by auto
  next
    case (Delete k) with st delete_e_returns[of w s k] show ?thesis by auto
  next
    case (Exists k) with st exists_e_returns[of w now s k] show ?thesis by auto
  next
    case (MGet ks) with st mget_e_returns[of w now s ks] show ?thesis by auto
  next
    case (MSet items) with st mset_e_returns[of w now s items] show ?thesis by auto
  next
    case Clear with st clear_e_returns[of w s] show ?thesis by auto
  next
    case GetStats with st show ?thesis by auto
  next
    case Sweep with st show ?thesis by auto
  qed
qed

lemma run_returns: "\<exists>s'. run sts s = Inr ((), s')"
proof (induction sts arbitrary: s)
  case Nil
  then show ?case by simp
next
  case (Cons st sts)
  obtain s1 where "exec st s = Inr ((), s1)" using exec_returns[of st s] by auto
  with Cons.IH[of s1] show ?case by simp
qed

subsection \<open>A failing remote call is counted and absorbed\<close>

lemma get_e_remote_failure:
  assumes "active_redis s = Some r" "usable r" "get_fails w k"
    and "enableMemoryCache (config s) \<longrightarrow> live_item now s k = None"
  shows "\<exists>s'. get_e w now s k = Inr (None, s') \<and> errors_e s' = errors_e s + 1"
  using assms
  by (auto simp: get_e_def get_r_def via_redis_def try_catch_def get_fails_def errors_e_def
      active_redis_def live_item_def count_error_def updateHitRate_def Let_def
      split: sum.splits option.splits if_splits)

lemma set_e_remote_failure:
  assumes "active_redis s = Some r" "usable r" "set_fails w k d (ttl_of s t)"
  shows "\<exists>s'. set_e w now s k d t = Inr ((), s') \<and> errors_e s' = errors_e s + 1"
  using assms
  by (auto simp: set_e_def set_backend_def set_memory_def set_r_def via_redis_def try_catch_def
      set_fails_def errors_e_def checkMemoryLimit_def ttl_of_def
      active_redis_def count_error_def Let_def
      split: sum.splits option.splits if_splits)

lemma delete_e_remote_failure:
  assumes "active_redis s = Some r" "usable r" "delete_fails w k"
  shows "\<exists>s'. delete_e w s k = Inr ((), s') \<and> errors_e s' = errors_e s + 1"
  using assms
  by (auto simp: delete_e_def delete_r_def via_redis_def try_catch_def
      delete_fails_def errors_e_def 
      active_redis_def count_error_def Let_def
      split: sum.splits option.splits if_splits)

subsection \<open>The statistics of the facade\<close>

lemma checkMemoryLimit_stats [simp]: "stats (checkMemoryLimit s) = stats s"
  by (simp add: checkMemoryLimit_def Let_def)

lemma get_e_stats_inv:
  "stats_inv s \<Longrightarrow> get_e w now s k = Inr (a, s') \<Longrightarrow> stats_inv s'"
  by (auto simp: get_e_def stats_inv_def via_redis_def try_catch_def backend_error_def
      calculateHitRate_def Let_def
      split: sum.splits option.splits prod.splits if_splits tier.splits)

lemma set_backend_stats_inv:
  "stats_inv s \<Longrightarrow> set_backend w s k d t = Inr (a, s') \<Longrightarrow> stats_inv s'"
  by (auto simp: set_backend_def stats_inv_def via_redis_def try_catch_def backend_error_def
      split: sum.splits option.splits prod.splits if_splits)

lemma set_memory_stats [simp]: "stats (set_memory now s k d t) = stats s"
  by (simp add: set_memory_def Let_def)

lemma set_e_stats_inv:
  "stats_inv s \<Longrightarrow> set_e w now s k d t = Inr (a, s') \<Longrightarrow> stats_inv s'"
  using set_backend_stats_inv[of "set_memory now s k d t" w k d t]
  by (auto simp: set_e_def stats_inv_def split: sum.splits prod.splits)

lemma delete_e_stats_inv:
  "stats_inv s \<Longrightarrow> delete_e w s k = Inr (a, s') \<Longrightarrow> stats_inv s'"
  by (auto simp: delete_e_def stats_inv_def via_redis_def try_catch_def backend_error_def Let_def
      split: sum.splits option.splits prod.splits if_splits)

lemma exists_e_stats_inv:
  "stats_inv s \<Longrightarrow> exists_e w now s k = Inr (a, s') \<Longrightarrow> stats_inv s'"
  by (auto simp: exists_e_def stats_inv_def via_redis_def try_catch_def backend_error_def Let_def
      split: sum.splits option.splits prod.splits if_splits)

lemma clear_e_stats_inv:
  "clear_e w s = Inr (a, s') \<Longrightarrow> stats_inv s'"
  by (auto simp: clear_e_def stats_inv_def via_redis_def try_catch_def backend_error_def Let_def
      split: sum.splits option.splits prod.splits if_splits)

lemma mget_e_stats_inv:
  "stats_inv s \<Longrightarrow> mget_e w now s ks = Inr (a, s') \<Longrightarrow> stats_inv s'"
proof (induction ks arbitrary: s a)
  case Nil
  then show ?case by simp
next
  case (Cons k ks)
  then show ?case
    by (auto split: sum.splits prod.splits dest: get_e_stats_inv)
qed

lemma mset_seq_stats_inv:
  "stats_inv s \<Longrightarrow> mset_seq w now s items = Inr (a, s') \<Longrightarrow> stats_inv s'"
proof (induction items arbitrary: s)
  case Nil
  then show ?case by simp
next
  case (Cons it items)
  then show ?case
    by (cases it) (auto split: sum.splits prod.splits dest: set_e_stats_inv)
qed

lemma mset_memory_stats [simp]: "stats (mset_memory now s items) = stats s"
  by (induction items arbitrary: s) auto

lemma mset_backend_stats_inv:
  "stats_inv s \<Longrightarrow> mset_backend w s items = Inr (a, s') \<Longrightarrow> stats_inv s'"
proof (induction items arbitrary: s)
  case Nil
  then show ?case by simp
next
  case (Cons it items)
  then show ?case
    by (cases it) (auto split: sum.splits prod.splits dest: set_backend_stats_inv)
qed

lemma checkMemoryLimit_pow_stats [simp]: "stats ((checkMemoryLimit ^^ n) s) = stats s"
  by (induction n) auto

lemma mset_e_stats_inv:
  assumes "stats_inv s" "mset_e w now s items = Inr (a, s')"
  shows "stats_inv s'"
proof (cases "active_redis s = None")
  case True
  with assms show ?thesis by (auto simp: mset_e_def dest: mset_seq_stats_inv)
next
  case False
  have m: "stats_inv (mset_memory now s items)" using assms(1) by (simp add: stats_inv_def)
  from False assms(2) obtain s2 where
    b: "mset_backend w (mset_memory now s items) items = Inr ((), s2)"
    and s': "s' = (checkMemoryLimit ^^ length items) s2"
    by (auto simp: mset_e_def split: sum.splits prod.splits)
  have "stats_inv s2" using mset_backend_stats_inv[OF m b] .
  with s' show ?thesis by (simp add: stats_inv_def)
qed

lemma exec_stats_inv:
  assumes "stats_inv s" "exec st s = Inr (a, s')"
  shows "stats_inv s'"
proof -
  obtain w now o' where st: "st = (w, now, o')" by (cases st) auto
  show ?thesis
  proof (cases o')
    case (Get k) with st assms show ?thesis
      by (auto split: sum.splits prod.splits dest: get_e_stats_inv)
  next
    case (Set k d t) with st assms show ?thesis by (auto dest: set_e_stats_inv)
  next
    case (Delete k) with st assms show ?thesis by (auto dest: delete_e_stats_inv)
  next
    case (Exists k) with st assms show ?thesis
      by (auto split: sum.splits prod.splits dest: exists_e_stats_inv)
  next
    case (MGet ks) with st assms show ?thesis
      by (auto split: sum.splits prod.splits dest: mget_e_stats_inv)
  next
    case (MSet items) with st assms show ?thesis by (auto dest: mset_e_stats_inv)
  next
    case Clear with st assms show ?thesis by (auto dest: clear_e_stats_inv)
  next
    case GetStats with st assms show ?thesis
      by (auto simp: getStats_e_def stats_inv_def Let_def)
  next
    case Sweep with st assms show ?thesis
      by (auto simp: sweep_def cleanupExpiredItems_def stats_inv_def Let_def)
  qed
qed

lemma run_stats_inv:
  "stats_inv s \<Longrightarrow> run sts s = Inr (a, s') \<Longrightarrow> stats_inv s'"
proof (induction sts arbitrary: s)
  case Nil
  then show ?case by simp
next
  case (Cons st sts)
  then show ?case
    by (auto split: sum.splits prod.splits dest: exec_stats_inv)
qed

lemma new_stats_inv: "stats_inv (EnhancedCacheManager_new cfg)"
  by (simp add: EnhancedCacheManager_new_def startCleanupTimer_def initializeBackend_def
      initializeMemoryOnly_def stats_inv_def split: backend.splits)

subsection \<open>Failures of the remote tier stay inside the cache\<close>

text \<open>
  C1. No sequence of operations on the facade throws, whatever the environment does, and
  neither does a single \<^verbatim>\<open>get\<close>, \<^verbatim>\<open>set\<close> or \<^verbatim>\<open>delete\<close>. When the facade calls a connected remote
  tier and the remote call fails, \<^verbatim>\<open>get\<close> returns \<^verbatim>\<open>null\<close>, \<^verbatim>\<open>set\<close> and \<^verbatim>\<open>delete\<close> return normally,
  and the error counter of the remote tier client goes up by one.
\<close>

theorem remote_failure_never_reaches_caller:
  "returns (run sts s) \<and> returns (get_e w now s k) \<and> returns (set_e w now s k d t) \<and>
   returns (delete_e w s k) \<and>
   (active_redis s = Some r \<and> usable r \<longrightarrow>
      ((enableMemoryCache (config s) \<longrightarrow> live_item now s k = None) \<and> get_fails w k \<longrightarrow>
         (\<exists>s'. get_e w now s k = Inr (None, s') \<and> errors_e s' = errors_e s + 1)) \<and>
      (set_fails w k d (ttl_of s t) \<longrightarrow>
         (\<exists>s'. set_e w now s k d t = Inr ((), s') \<and> errors_e s' = errors_e s + 1)) \<and>
      (delete_fails w k \<longrightarrow>
         (\<exists>s'. delete_e w s k = Inr ((), s') \<and> errors_e s' = errors_e s + 1)))"
proof -
  have "returns (run sts s)" using run_returns[of sts s] by (auto simp: returns_def)
  moreover have "returns (get_e w now s k)"
    using get_e_returns[of w now s k] by (auto simp: returns_def)
  moreover have "returns (set_e w now s k d t)"
    using set_e_returns[of w now s k d t] by (auto simp: returns_def)
  moreover have "returns (delete_e w s k)"
    using delete_e_returns[of w s k] by (auto simp: returns_def)
  ultimately show ?thesis
    using get_e_remote_failure[of s r w k now] set_e_remote_failure[of s r w k d t now]
      delete_e_remote_failure[of s r w k]
    by blast
qed

lemma remote_facade_active: "active_redis remote_facade = Some connected_client"
  by (simp add: remote_facade_def active_redis_def)

lemma connected_client_usable: "usable connected_client"
  by (simp add: connected_client_def usable_def)

lemma remote_facade_errors: "errors_e remote_facade = 0"
  by (simp add: remote_facade_def errors_e_def connected_client_def RedisCacheManager_new_def)

lemma remote_facade_empty: "live_item 0 remote_facade ''user:42'' = None"
  by (simp add: remote_facade_def live_item_def EnhancedCacheManager_new_def
      startCleanupTimer_def initializeBackend_def initializeMemoryOnly_def split: backend.splits)

theorem remote_failure_never_reaches_caller_witness:
  "(\<exists>s'. get_e failing_world 0 remote_facade ''user:42'' = Inr (None, s') \<and> errors_e s' = 1) \<and>
   (\<exists>s'. set_e failing_world 0 remote_facade ''user:42'' 7 None = Inr ((), s') \<and> errors_e s' = 1) \<and>
   (\<exists>s'. delete_e failing_world remote_facade ''user:42'' = Inr ((), s') \<and> errors_e s' = 1)"
  using remote_failure_never_reaches_caller
          [of "[]" remote_facade failing_world 0 "''user:42''" 7 None connected_client]
    remote_facade_active connected_client_usable remote_facade_errors remote_facade_empty
  by (simp add: get_fails_def set_fails_def delete_fails_def failing_world_def)

subsection \<open>The request counter\<close>

text \<open>
  C2. After every sequence of operations on a newly constructed facade, the statistics
  that \<^verbatim>\<open>getStats\<close> returns satisfy \<^verbatim>\<open>requests == hits + misses\<close>.
\<close>

theorem requests_eq_hits_plus_misses:
  "\<exists>s'. run sts (EnhancedCacheManager_new cfg) = Inr ((), s') \<and>
         total_requests (fst (getStats_e s')) =
           total_hits (fst (getStats_e s')) + total_misses (fst (getStats_e s'))"
proof -
  obtain s' where r: "run sts (EnhancedCacheManager_new cfg) = Inr ((), s')"
    using run_returns[of sts "EnhancedCacheManager_new cfg"] by auto
  have "stats_inv s'" using run_stats_inv[OF new_stats_inv r] .
  then have "total_requests (fst (getStats_e s')) =
           total_hits (fst (getStats_e s')) + total_misses (fst (getStats_e s'))"
    by (simp add: stats_inv_def getStats_e_def Let_def)
  with r show ?thesis by blast
qed

subsection \<open>The statistics of the remote tier client\<close>

lemma scheduleReconnect_stats [simp]: "stats_r (fst (scheduleReconnect r)) = stats_r r"
  by (simp add: scheduleReconnect_def Let_def)

lemma on_event_hitRate_ok: "hitRate_ok r \<Longrightarrow> hitRate_ok (fst (on_event ev r))"
  by (cases ev) (auto simp: hitRate_ok_def count_error_def split: option.splits)

lemma get_r_hitRate_ok: "hitRate_ok r \<Longrightarrow> get_r w r k = Inr (a, r') \<Longrightarrow> hitRate_ok r'"
  by (auto simp: get_r_def hitRate_ok_def try_catch_def updateHitRate_def count_error_def Let_def
      divide_le_eq_1
      split: sum.splits option.splits if_splits)

lemma exec_r_hitRate_ok:
  assumes "hitRate_ok r" "exec_r st r = Inr (a, r')"
  shows "hitRate_ok r'"
proof -
  obtain w o' where st: "st = (w, o')" by (cases st) auto
  show ?thesis
  proof (cases o')
    case (Get_r k) with st assms show ?thesis
      by (auto split: sum.splits prod.splits dest: get_r_hitRate_ok)
  next
    case (Set_r k d t) with st assms show ?thesis
      by (auto simp: set_r_def hitRate_ok_def try_catch_def count_error_def
          split: sum.splits if_splits)
  next
    case (Delete_r k) with st assms show ?thesis
      by (auto simp: delete_r_def hitRate_ok_def try_catch_def count_error_def
          split: sum.splits if_splits)
  next
    case (Exists_r k) with st assms show ?thesis
      by (auto simp: exists_r_def hitRate_ok_def try_catch_def count_error_def
          split: sum.splits if_splits)
  next
    case Clear_r with st assms show ?thesis
      by (auto simp: clear_r_def hitRate_ok_def try_catch_def count_error_def
          split: sum.splits if_splits)
  next
    case (Event ev) with st assms show ?thesis
      by (auto dest: on_event_hitRate_ok)
  qed
qed

lemma exec_r_returns: "\<exists>r'. exec_r st r = Inr ((), r')"
proof -
  obtain w o' where st: "st = (w, o')" by (cases st) auto
  show ?thesis
  proof (cases o')
    case (Get_r k) with st get_r_returns[of w r k] show ?thesis by auto
  next
    case (Set_r k d t) with st set_r_returns[of w r k d t] show ?thesis by auto
  next
    case (Delete_r k) with st delete_r_returns[of w r k] show ?thesis by auto
  next
    case (Exists_r k) with st exists_r_returns[of w r k] show ?thesis by auto
  next
    case Clear_r with st clear_r_returns[of w r] show ?thesis by auto
  next
    case (Event ev) with st show ?thesis by auto
  qed
qed

lemma run_r_hitRate_ok:
  "hitRate_ok r \<Longrightarrow> \<exists>r'. run_r sts r = Inr ((), r') \<and> hitRate_ok r'"
proof (induction sts arbitrary: r)
  case Nil
  then show ?case by simp
next
  case (Cons st sts)
  obtain r1 where e: "exec_r st r = Inr ((), r1)" using exec_r_returns[of st r] by auto
  have "hitRate_ok r1" using exec_r_hitRate_ok[OF Cons.prems e] .
  from Cons.IH[OF this] e show ?case by simp
qed

lemma new_hitRate_ok: "hitRate_ok RedisCacheManager_new"
  by (simp add: hitRate_ok_def RedisCacheManager_new_def)

subsection \<open>The hit rate\<close>

text \<open>
  C8. After every sequence of operations on a newly constructed facade, the hit rate that
  \<^verbatim>\<open>getStats\<close> reports lies between 0 and 1 and is 0 when there was no request; the two
  per-tier rates it reports are 0. The hit rate that the remote tier client keeps
  (\<^verbatim>\<open>updateHitRate\<close>) stays between 0 and 1, and 0 while it has counted no request, along
  every sequence of client operations and connection events.
\<close>

theorem hitRate_in_unit_interval:
  "(\<exists>s' st. run sts (EnhancedCacheManager_new cfg) = Inr ((), s') \<and> st = fst (getStats_e s') \<and>
       0 \<le> total_hitRate st \<and> total_hitRate st \<le> 1 \<and>
       (total_requests st = 0 \<longrightarrow> total_hitRate st = 0) \<and>
       backend_hitRate st = 0 \<and> memoryCache_hitRate st = 0) \<and>
   (hitRate_ok r \<longrightarrow>
      (\<exists>r'. run_r sts_r r = Inr ((), r') \<and>
         0 \<le> hitRate_r (stats_r r') \<and> hitRate_r (stats_r r') \<le> 1 \<and>
         (requests_r (stats_r r') = 0 \<longrightarrow> hitRate_r (stats_r r') = 0)))"
proof (rule conjI)
  obtain s' where r: "run sts (EnhancedCacheManager_new cfg) = Inr ((), s')"
    using run_returns[of sts "EnhancedCacheManager_new cfg"] by auto
  have inv: "stats_inv s'" using run_stats_inv[OF new_stats_inv r] .
  then have le: "total_hits (stats s') \<le> total_requests (stats s')"
    by (simp add: stats_inv_def)
  have a: "0 \<le> total_hitRate (fst (getStats_e s'))"
    by (simp add: getStats_e_def Let_def)
  have b: "total_hitRate (fst (getStats_e s')) \<le> 1"
    using le by (simp add: getStats_e_def Let_def divide_le_eq_1)
  have c: "total_requests (fst (getStats_e s')) = 0 \<longrightarrow> total_hitRate (fst (getStats_e s')) = 0"
    by (simp add: getStats_e_def Let_def)
  have d: "backend_hitRate (fst (getStats_e s')) = 0"
    using inv by (simp add: getStats_e_def Let_def stats_inv_def)
  have e: "memoryCache_hitRate (fst (getStats_e s')) = 0"
    using inv by (simp add: getStats_e_def Let_def stats_inv_def)
  show "\<exists>s' st. run sts (EnhancedCacheManager_new cfg) = Inr ((), s') \<and> st = fst (getStats_e s') \<and>
       0 \<le> total_hitRate st \<and> total_hitRate st \<le> 1 \<and>
       (total_requests st = 0 \<longrightarrow> total_hitRate st = 0) \<and>
       backend_hitRate st = 0 \<and> memoryCache_hitRate st = 0"
    apply (rule exI[of _ s'])
    apply (rule exI[of _ "fst (getStats_e s')"])
    using r a b c d e apply (intro conjI)
          apply assumption+
      apply (rule refl)
     apply assumption+
    done
next
  show "hitRate_ok r \<longrightarrow>
      (\<exists>r'. run_r sts_r r = Inr ((), r') \<and>
         0 \<le> hitRate_r (stats_r r') \<and> hitRate_r (stats_r r') \<le> 1 \<and>
         (requests_r (stats_r r') = 0 \<longrightarrow> hitRate_r (stats_r r') = 0))"
  proof
    assume "hitRate_ok r"
    from run_r_hitRate_ok[OF this, of sts_r] obtain r' where
      rr: "run_r sts_r r = Inr ((), r')" and ok: "hitRate_ok r'" by auto
    have "0 \<le> hitRate_r (stats_r r') \<and> hitRate_r (stats_r r') \<le> 1 \<and>
         (requests_r (stats_r r') = 0 \<longrightarrow> hitRate_r (stats_r r') = 0)"
      using ok by (simp add: hitRate_ok_def split: if_splits)
    with rr show "\<exists>r'. run_r sts_r r = Inr ((), r') \<and>
         0 \<le> hitRate_r (stats_r r') \<and> hitRate_r (stats_r r') \<le> 1 \<and>
         (requests_r (stats_r r') = 0 \<longrightarrow> hitRate_r (stats_r r') = 0)"
      by (intro exI[of _ r']) simp
  qed
qed

lemma connected_client_hitRate_ok: "hitRate_ok connected_client"
  by (simp add: hitRate_ok_def connected_client_def RedisCacheManager_new_def)

lemma fresh_requests:
  "total_requests (fst (getStats_e (EnhancedCacheManager_new default_config :: nat EnhancedCacheManager))) = 0"
  by (simp add: getStats_e_def Let_def EnhancedCacheManager_new_def startCleanupTimer_def
      initializeBackend_def initializeMemoryOnly_def split: backend.splits)

theorem hitRate_in_unit_interval_witness:
  "total_hitRate (fst (getStats_e (EnhancedCacheManager_new default_config :: nat EnhancedCacheManager))) = 0 \<and>
   (\<exists>r'. run_r [(failing_world, Get_r ''a'')] connected_client = Inr ((), r') \<and>
         0 \<le> hitRate_r (stats_r r') \<and> hitRate_r (stats_r r') \<le> 1)"
proof -
  note t = hitRate_in_unit_interval
            [of "[]" default_config connected_client "[(failing_world, Get_r ''a'')]"]
  from t have "\<exists>s' st. run [] (EnhancedCacheManager_new default_config :: nat EnhancedCacheManager) = Inr ((), s') \<and>
       st = fst (getStats_e s') \<and> (total_requests st = 0 \<longrightarrow> total_hitRate st = 0)"
    by auto
  then have "total_requests (fst (getStats_e (EnhancedCacheManager_new default_config :: nat EnhancedCacheManager))) = 0
      \<longrightarrow> total_hitRate (fst (getStats_e (EnhancedCacheManager_new default_config :: nat EnhancedCacheManager))) = 0"
    by simp
  with fresh_requests have a: "total_hitRate (fst (getStats_e (EnhancedCacheManager_new default_config :: nat EnhancedCacheManager))) = 0"
    by simp
  from t connected_client_hitRate_ok
  have "\<exists>r'. run_r [(failing_world, Get_r ''a'')] connected_client = Inr ((), r') \<and>
         0 \<le> hitRate_r (stats_r r') \<and> hitRate_r (stats_r r') \<le> 1 \<and>
         (requests_r (stats_r r') = 0 \<longrightarrow> hitRate_r (stats_r r') = 0)"
    by (rule_tac conjunct2[THEN mp])
  then obtain r' where "run_r [(failing_world, Get_r ''a'')] connected_client = Inr ((), r')"
    "0 \<le> hitRate_r (stats_r r')" "hitRate_r (stats_r r') \<le> 1" by auto
  then have "\<exists>r'. run_r [(failing_world, Get_r ''a'')] connected_client = Inr ((), r') \<and>
         0 \<le> hitRate_r (stats_r r') \<and> hitRate_r (stats_r r') \<le> 1"
    by (intro exI[of _ r']) simp
  with a show ?thesis by (rule conjI)
qed

lemma clear_e_memory:
  "clear_e w s = Inr (a, s') \<Longrightarrow>
     memoryCache s' = (if enableMemoryCache (config s) then [] else memoryCache s)"
  by (auto simp: clear_e_def via_redis_def try_catch_def backend_error_def Let_def
      split: sum.splits option.splits prod.splits if_splits)

lemma clear_e_stats:
  "clear_e w s = Inr (a, s') \<Longrightarrow>
     total_requests (stats s') = 0 \<and> total_hits (stats s') = 0 \<and>
     total_misses (stats s') = 0 \<and> total_hitRate (stats s') = 0 \<and>
     backend_hitRate (stats s') = 0 \<and> memoryCache_hitRate (stats s') = 0"
  by (auto simp: clear_e_def via_redis_def try_catch_def backend_error_def Let_def
      split: sum.splits option.splits prod.splits if_splits)

subsection \<open>Clearing the cache\<close>

text \<open>
  C10. \<^verbatim>\<open>clear\<close> returns and resets the counters: \<^verbatim>\<open>getStats\<close> afterwards reports 0 requests,
  0 hits, 0 misses and hit rate 0, in every state and environment; and with the memory
  tier enabled (or already empty) the map is empty and the reported size is 0.
\<close>

theorem clear_resets_statistics:
  "\<exists>s' st. clear_e w s = Inr ((), s') \<and> st = fst (getStats_e s') \<and>
      total_requests st = 0 \<and> total_hits st = 0 \<and> total_misses st = 0 \<and> total_hitRate st = 0 \<and>
      backend_hitRate st = 0 \<and> memoryCache_hitRate st = 0 \<and>
      (enableMemoryCache (config s) \<or> memoryCache s = [] \<longrightarrow>
         memoryCache s' = [] \<and> memoryCache_size st = 0)"
proof -
  obtain s' where c: "clear_e w s = Inr ((), s')" using clear_e_returns[of w s] by auto
  note m = clear_e_memory[OF c] and e = clear_e_stats[OF c]
  have 1: "total_requests (fst (getStats_e s')) = 0" using e by (simp add: getStats_e_def Let_def)
  have 2: "total_hits (fst (getStats_e s')) = 0" using e by (simp add: getStats_e_def Let_def)
  have 3: "total_misses (fst (getStats_e s')) = 0" using e by (simp add: getStats_e_def Let_def)
  have 4: "total_hitRate (fst (getStats_e s')) = 0" using e by (simp add: getStats_e_def Let_def)
  have 5: "backend_hitRate (fst (getStats_e s')) = 0" using e by (simp add: getStats_e_def Let_def)
  have 6: "memoryCache_hitRate (fst (getStats_e s')) = 0" using e by (simp add: getStats_e_def Let_def)
  have 7: "enableMemoryCache (config s) \<or> memoryCache s = [] \<longrightarrow>
         memoryCache s' = [] \<and> memoryCache_size (fst (getStats_e s')) = 0"
    using m by (auto simp: getStats_e_def Let_def)
  show ?thesis
    apply (rule exI[of _ s'])
    apply (rule exI[of _ "fst (getStats_e s')"])
    using c 1 2 3 4 5 6 7 apply (intro conjI)
            apply assumption
           apply (rule refl)
          apply assumption+
    done
qed

lemma fresh_facade_config: "config fresh_facade = default_config"
  by (simp add: fresh_facade_def EnhancedCacheManager_new_def startCleanupTimer_def
        initializeBackend_def initializeMemoryOnly_def split: backend.splits)

lemma used_facade_enabled: "enableMemoryCache (config used_facade)"
  by (simp add: used_facade_def fresh_facade_config default_config_def)

theorem clear_resets_statistics_witness:
  "total_requests (stats used_facade) = 3 \<and> memoryCache used_facade \<noteq> [] \<and>
   (\<exists>s' st. clear_e quiet_world used_facade = Inr ((), s') \<and> st = fst (getStats_e s') \<and>
      total_requests st = 0 \<and> total_hits st = 0 \<and> total_misses st = 0 \<and> total_hitRate st = 0 \<and>
      memoryCache s' = [] \<and> memoryCache_size st = 0)"
proof -
  have u: "total_requests (stats used_facade) = 3 \<and> memoryCache used_facade \<noteq> []"
    by (simp add: used_facade_def)
  from clear_resets_statistics[of quiet_world used_facade] obtain s' st where
    "clear_e quiet_world used_facade = Inr ((), s')" "st = fst (getStats_e s')"
    "total_requests st = 0" "total_hits st = 0" "total_misses st = 0" "total_hitRate st = 0"
    "enableMemoryCache (config used_facade) \<or> memoryCache used_facade = [] \<longrightarrow>
         memoryCache s' = [] \<and> memoryCache_size st = 0"
    by auto
  with used_facade_enabled have
    "clear_e quiet_world used_facade = Inr ((), s') \<and> st = fst (getStats_e s') \<and>
      total_requests st = 0 \<and> total_hits st = 0 \<and> total_misses st = 0 \<and> total_hitRate st = 0 \<and>
      memoryCache s' = [] \<and> memoryCache_size st = 0"
    by simp
  then have "\<exists>s' st. clear_e quiet_world used_facade = Inr ((), s') \<and> st = fst (getStats_e s') \<and>
      total_requests st = 0 \<and> total_hits st = 0 \<and> total_misses st = 0 \<and> total_hitRate st = 0 \<and>
      memoryCache s' = [] \<and> memoryCache_size st = 0"
    by (intro exI[of _ s'] exI[of _ st])
  with u show ?thesis by simp
qed

subsection \<open>Shutdown\<close>

lemma destroy_r_props:
  assumes "destroy_r w r = Inr (a, r')"
  shows "reconnectTimer r' = None \<and> redis r' = None \<and> \<not> isConnected r' \<and>
         destroy_r w' r' = Inr ((), r')"
  using assms
  by (auto simp: destroy_r_def Let_def split: if_splits sum.splits)

lemma destroy_r_returns:
  "redis_disconnect w = Inr () \<Longrightarrow> \<exists>r'. destroy_r w r = Inr ((), r')"
  by (auto simp: destroy_r_def Let_def split: if_splits sum.splits)

lemma destroy_e_props:
  assumes "destroy_e w s = Inr (a, s')"
  shows "cleanupTimer s' = None \<and> memoryCache s' = [] \<and> redisCache s' = None \<and>
         destroy_e w' s' = Inr ((), s')"
  using assms
  by (auto simp: destroy_e_def via_redis_def Let_def split: if_splits sum.splits option.splits prod.splits)

lemma destroy_e_client:
  assumes "destroy_e w s = Inr (a, s')" "redisCache s = Some r"
  shows "\<exists>r'. destroy_r w r = Inr ((), r')"
  using assms
  by (auto simp: destroy_e_def via_redis_def Let_def split: if_splits sum.splits option.splits prod.splits)

lemma destroy_e_returns:
  assumes "redis_disconnect w = Inr ()"
  shows "\<exists>s'. destroy_e w s = Inr ((), s')"
proof (cases "redisCache s")
  case None
  then show ?thesis by (simp add: destroy_e_def Let_def)
next
  case (Some r)
  obtain r' where "destroy_r w r = Inr ((), r')" using destroy_r_returns[OF assms, of r] by auto
  with Some show ?thesis by (simp add: destroy_e_def via_redis_def Let_def)
qed

lemma get_e_redisCache_None:
  "redisCache s = None \<Longrightarrow> get_e w now s k = Inr (a, s') \<Longrightarrow> redisCache s' = None"
  by (auto simp: get_e_def active_redis_def Let_def split: option.splits if_splits)

lemma checkMemoryLimit_redisCache [simp]: "redisCache (checkMemoryLimit s) = redisCache s"
  by (simp add: checkMemoryLimit_def Let_def)

lemma set_memory_redisCache [simp]: "redisCache (set_memory now s k d t) = redisCache s"
  by (simp add: set_memory_def Let_def)

lemma set_e_redisCache_None:
  "redisCache s = None \<Longrightarrow> set_e w now s k d t = Inr (a, s') \<Longrightarrow> redisCache s' = None"
  by (auto simp: set_e_def set_backend_def active_redis_def split: option.splits if_splits)

lemma delete_e_redisCache_None:
  "redisCache s = None \<Longrightarrow> delete_e w s k = Inr (a, s') \<Longrightarrow> redisCache s' = None"
  by (auto simp: delete_e_def active_redis_def Let_def split: option.splits if_splits)

lemma exists_e_redisCache_None:
  "redisCache s = None \<Longrightarrow> exists_e w now s k = Inr (a, s') \<Longrightarrow> redisCache s' = None"
  by (auto simp: exists_e_def active_redis_def Let_def split: option.splits if_splits)

lemma clear_e_redisCache_None:
  "redisCache s = None \<Longrightarrow> clear_e w s = Inr (a, s') \<Longrightarrow> redisCache s' = None"
  by (auto simp: clear_e_def active_redis_def Let_def split: option.splits if_splits)

lemma mget_e_redisCache_None:
  "redisCache s = None \<Longrightarrow> mget_e w now s ks = Inr (a, s') \<Longrightarrow> redisCache s' = None"
proof (induction ks arbitrary: s a)
  case Nil
  then show ?case by simp
next
  case (Cons k ks)
  then show ?case
    by (auto split: sum.splits prod.splits dest: get_e_redisCache_None)
qed

lemma mset_seq_redisCache_None:
  "redisCache s = None \<Longrightarrow> mset_seq w now s items = Inr (a, s') \<Longrightarrow> redisCache s' = None"
proof (induction items arbitrary: s)
  case Nil
  then show ?case by simp
next
  case (Cons it items)
  then show ?case
    by (cases it) (auto split: sum.splits prod.splits dest: set_e_redisCache_None)
qed

lemma mset_e_redisCache_None:
  "redisCache s = None \<Longrightarrow> mset_e w now s items = Inr (a, s') \<Longrightarrow> redisCache s' = None"
proof -
  assume n: "redisCache s = None" and m: "mset_e w now s items = Inr (a, s')"
  from n have "active_redis s = None" by (simp add: active_redis_def)
  with m have "mset_seq w now s items = Inr (a, s')" by (simp add: mset_e_def)
  with n show ?thesis by (rule mset_seq_redisCache_None)
qed

lemma exec_redisCache_None:
  assumes "redisCache s = None" "exec st s = Inr (a, s')"
  shows "redisCache s' = None"
proof -
  obtain w now o' where st: "st = (w, now, o')" by (cases st) auto
  show ?thesis
  proof (cases o')
    case (Get k) with st assms show ?thesis
      by (auto split: sum.splits prod.splits dest: get_e_redisCache_None)
  next
    case (Set k d t) with st assms show ?thesis by (auto dest: set_e_redisCache_None)
  next
    case (Delete k) with st assms show ?thesis by (auto dest: delete_e_redisCache_None)
  next
    case (Exists k) with st assms show ?thesis
      by (auto split: sum.splits prod.splits dest: exists_e_redisCache_None)
  next
    case (MGet ks) with st assms show ?thesis
      by (auto split: sum.splits prod.splits dest: mget_e_redisCache_None)
  next
    case (MSet items) with st assms show ?thesis by (auto dest: mset_e_redisCache_None)
  next
    case Clear with st assms show ?thesis by (auto dest: clear_e_redisCache_None)
  next
    case GetStats with st assms show ?thesis
      by (auto simp: getStats_e_def Let_def)
  next
    case Sweep with st assms show ?thesis
      by (auto simp: sweep_def cleanupExpiredItems_def Let_def)
  qed
qed

lemma run_redisCache_None:
  "redisCache s = None \<Longrightarrow> run sts s = Inr (a, s') \<Longrightarrow> redisCache s' = None"
proof (induction sts arbitrary: s)
  case Nil
  then show ?case by simp
next
  case (Cons st sts)
  then show ?case
    by (auto split: sum.splits prod.splits dest: exec_redisCache_None)
qed

text \<open>
  C9. When \<^verbatim>\<open>destroy\<close> returns, the sweep timer is cleared, the memory map is empty and the
  facade holds no remote client; the client it held was destroyed: its reconnect timer is
  cleared, its connection handle released. A second \<^verbatim>\<open>destroy\<close> returns and changes nothing,
  for the facade and for the client, whatever the environment does; and after any further
  operations a \<^verbatim>\<open>destroy\<close> still returns. The first \<^verbatim>\<open>destroy\<close> returns whenever
  \<^verbatim>\<open>redis.disconnect()\<close> does.
\<close>

theorem destroy_releases_and_is_idempotent:
  "(redis_disconnect w = Inr () \<longrightarrow> (\<exists>s1. destroy_e w s = Inr ((), s1))) \<and>
   (destroy_e w s = Inr ((), s') \<longrightarrow>
      cleanupTimer s' = None \<and> memoryCache s' = [] \<and> redisCache s' = None \<and>
      destroy_e w' s' = Inr ((), s') \<and>
      (\<exists>s''. run sts s' = Inr ((), s'') \<and> returns (destroy_e w' s'')) \<and>
      (redisCache s = Some r \<longrightarrow>
         (\<exists>r'. destroy_r w r = Inr ((), r') \<and> reconnectTimer r' = None \<and> redis r' = None \<and>
               \<not> isConnected r' \<and> destroy_r w' r' = Inr ((), r'))))"
proof (intro conjI impI)
  assume "redis_disconnect w = Inr ()"
  then show "\<exists>s1. destroy_e w s = Inr ((), s1)" by (rule destroy_e_returns)
next
  assume d: "destroy_e w s = Inr ((), s')"
  note p = destroy_e_props[OF d, of w']
  from p show "cleanupTimer s' = None" by simp
  from p show "memoryCache s' = []" by simp
  from p show "redisCache s' = None" by simp
  from p show "destroy_e w' s' = Inr ((), s')" by simp
  show "\<exists>s''. run sts s' = Inr ((), s'') \<and> returns (destroy_e w' s'')"
  proof -
    obtain s'' where r: "run sts s' = Inr ((), s'')" using run_returns[of sts s'] by auto
    from p have "redisCache s' = None" by simp
    then have "redisCache s'' = None" using r by (rule run_redisCache_None)
    then have "returns (destroy_e w' s'')" by (simp add: destroy_e_def returns_def Let_def)
    with r show ?thesis by (intro exI[of _ s'']) simp
  qed
  assume c: "redisCache s = Some r"
  from destroy_e_client[OF d c] obtain r' where r': "destroy_r w r = Inr ((), r')" by auto
  from destroy_r_props[OF r', of w'] r'
  show "\<exists>r'. destroy_r w r = Inr ((), r') \<and> reconnectTimer r' = None \<and> redis r' = None \<and>
               \<not> isConnected r' \<and> destroy_r w' r' = Inr ((), r')"
    by (intro exI[of _ r']) simp
qed

lemma busy_facade_state:
  "cleanupTimer busy_facade \<noteq> None \<and> memoryCache busy_facade \<noteq> [] \<and>
   redisCache busy_facade =
     Some (connected_client\<lparr>reconnectTimer := Some \<lparr> delay = 1000, pending = True \<rparr>\<rparr>)"
  by (simp add: busy_facade_def remote_facade_def EnhancedCacheManager_new_def
      startCleanupTimer_def initializeBackend_def initializeMemoryOnly_def split: backend.splits)

theorem destroy_releases_and_is_idempotent_witness:
  "cleanupTimer busy_facade \<noteq> None \<and> memoryCache busy_facade \<noteq> [] \<and>
   (\<exists>s'. destroy_e quiet_world busy_facade = Inr ((), s') \<and>
      cleanupTimer s' = None \<and> memoryCache s' = [] \<and> redisCache s' = None \<and>
      destroy_e failing_world s' = Inr ((), s')) \<and>
   (\<exists>r'. destroy_r quiet_world
            (connected_client\<lparr>reconnectTimer := Some \<lparr> delay = 1000, pending = True \<rparr>\<rparr>) = Inr ((), r') \<and>
          reconnectTimer r' = None \<and> redis r' = None)"
proof -
  have q: "redis_disconnect quiet_world = Inr ()" by (simp add: quiet_world_def)
  from destroy_releases_and_is_idempotent[of quiet_world busy_facade] q
  obtain s' where d: "destroy_e quiet_world busy_facade = Inr ((), s')" by blast
  note t = destroy_releases_and_is_idempotent
             [of quiet_world busy_facade s' failing_world "[]"
                 "connected_client\<lparr>reconnectTimer := Some \<lparr> delay = 1000, pending = True \<rparr>\<rparr>"]
  from t d have 1: "cleanupTimer s' = None \<and> memoryCache s' = [] \<and> redisCache s' = None \<and>
      destroy_e failing_world s' = Inr ((), s')" by simp
  from t d busy_facade_state
  have 2: "\<exists>r'. destroy_r quiet_world
            (connected_client\<lparr>reconnectTimer := Some \<lparr> delay = 1000, pending = True \<rparr>\<rparr>) = Inr ((), r') \<and>
          reconnectTimer r' = None \<and> redis r' = None \<and>
               \<not> isConnected r' \<and> destroy_r failing_world r' = Inr ((), r')" by simp
  then obtain r' where "destroy_r quiet_world
            (connected_client\<lparr>reconnectTimer := Some \<lparr> delay = 1000, pending = True \<rparr>\<rparr>) = Inr ((), r')"
    "reconnectTimer r' = None" "redis r' = None" by auto
  then have 3: "\<exists>r'. destroy_r quiet_world
            (connected_client\<lparr>reconnectTimer := Some \<lparr> delay = 1000, pending = True \<rparr>\<rparr>) = Inr ((), r') \<and>
          reconnectTimer r' = None \<and> redis r' = None"
    by (intro exI[of _ r']) simp
  from d 1 have 4: "\<exists>s'. destroy_e quiet_world busy_facade = Inr ((), s') \<and>
      cleanupTimer s' = None \<and> memoryCache s' = [] \<and> redisCache s' = None \<and>
      destroy_e failing_world s' = Inr ((), s')"
    by (intro exI[of _ s']) simp
  from busy_facade_state 3 4 show ?thesis by simp
qed

subsection \<open>Expired entries\<close>

lemma map_of_fold_delete:
  "map_of (fold AList.delete ks m) k = (if k \<in> set ks then None else map_of m k)"
  by (induction ks arbitrary: m) (auto simp: AList.delete_conv')


lemma cleanupExpiredItems_removes:
  assumes "map_of (memoryCache s) k = Some item" "isExpired now item"
  shows "map_of (memoryCache (cleanupExpiredItems now s)) k = None"
proof -
  from assms(1) have "(k, item) \<in> set (memoryCache s)" by (rule map_of_SomeD)
  with assms(2) have
    "k \<in> set (map fst (filter (\<lambda>e. now - timestamp (snd e) > ttl (snd e) * 1000) (memoryCache s)))"
    by (force simp: isExpired_def)
  then show ?thesis
    by (simp add: cleanupExpiredItems_def Let_def map_of_fold_delete del: set_map)
qed


lemma live_item_expired:
  "map_of (memoryCache s) k = Some item \<Longrightarrow> isExpired now item \<Longrightarrow> live_item now s k = None"
  by (simp add: live_item_def)

lemma get_e_no_live_item:
  assumes "live_item now s k = None"
  shows "\<exists>a s'. get_e w now s k = Inr (a, s') \<and>
           (active_redis s = None \<longrightarrow> a = None) \<and> (a = None \<longrightarrow> memoryCache s' = memoryCache s)"
proof -
  obtain a s' where g: "get_e w now s k = Inr (a, s')" using get_e_returns[of w now s k] by auto
  have l: "live_item now (s\<lparr>stats := (stats s)\<lparr>total_requests := total_requests (stats s) + 1\<rparr>\<rparr>) k = None"
    using assms by (simp add: live_item_def)
  have 1: "active_redis s = None \<longrightarrow> a = None"
    using g l by (auto simp: get_e_def active_redis_def Let_def split: if_splits)
  have 2: "a = None \<longrightarrow> memoryCache s' = memoryCache s"
    using g l
    by (auto simp: get_e_def via_redis_def try_catch_def backend_error_def Let_def
        split: sum.splits option.splits prod.splits if_splits)
  from g 1 2 show ?thesis by (intro exI[of _ a] exI[of _ s']) simp
qed

text \<open>
  C5 (amended). When the stored entry of a key is older than its TTL, \<^verbatim>\<open>get\<close> treats it as
  absent: the request goes on to the remote tier, and with no remote tier it is a miss.
  The \<^verbatim>\<open>get\<close> does not delete the entry: when it returns \<^verbatim>\<open>null\<close> the map is unchanged. The
  entry is removed by the sweep, \<^verbatim>\<open>cleanupExpiredItems\<close>.
\<close>

theorem get_skips_expired_entry_and_sweep_removes_it:
  "map_of (memoryCache s) k = Some item \<and> isExpired now item \<longrightarrow>
     (\<exists>a s'. get_e w now s k = Inr (a, s') \<and>
        (active_redis s = None \<longrightarrow> a = None) \<and>
        (a = None \<longrightarrow> memoryCache s' = memoryCache s \<and> map_of (memoryCache s') k = Some item)) \<and>
     map_of (memoryCache (cleanupExpiredItems now s)) k = None"
proof (intro impI conjI)
  assume a: "map_of (memoryCache s) k = Some item \<and> isExpired now item"
  then have "live_item now s k = None" by (simp add: live_item_expired)
  from get_e_no_live_item[OF this, of w] obtain r s' where
    "get_e w now s k = Inr (r, s')" "active_redis s = None \<longrightarrow> r = None"
    "r = None \<longrightarrow> memoryCache s' = memoryCache s" by auto
  with a show "\<exists>a s'. get_e w now s k = Inr (a, s') \<and>
        (active_redis s = None \<longrightarrow> a = None) \<and>
        (a = None \<longrightarrow> memoryCache s' = memoryCache s \<and> map_of (memoryCache s') k = Some item)"
    by (intro exI[of _ r] exI[of _ s']) simp
  from a show "map_of (memoryCache (cleanupExpiredItems now s)) k = None"
    by (simp add: cleanupExpiredItems_removes)
qed

lemma used_facade_item: "map_of (memoryCache used_facade) ''a'' = Some stale_item"
  by (simp add: used_facade_def stale_item_def)

lemma stale_item_expired: "isExpired 6000 stale_item"
  by (simp add: isExpired_def stale_item_def)

lemma used_facade_memory_only: "active_redis used_facade = None"
  by (simp add: used_facade_def active_redis_def fresh_facade_def EnhancedCacheManager_new_def
      startCleanupTimer_def initializeBackend_def initializeMemoryOnly_def split: backend.splits)

theorem get_skips_expired_entry_and_sweep_removes_it_witness:
  "(\<exists>s'. get_e quiet_world 6000 used_facade ''a'' = Inr (None, s') \<and>
          map_of (memoryCache s') ''a'' = Some stale_item) \<and>
   map_of (memoryCache (cleanupExpiredItems 6000 used_facade)) ''a'' = None"
proof -
  note t = get_skips_expired_entry_and_sweep_removes_it
             [of used_facade "''a''" stale_item 6000 quiet_world]
  from t used_facade_item stale_item_expired obtain a s' where
    g: "get_e quiet_world 6000 used_facade ''a'' = Inr (a, s')"
    and n: "active_redis used_facade = None \<longrightarrow> a = None"
    and m: "a = None \<longrightarrow> memoryCache s' = memoryCache used_facade \<and> map_of (memoryCache s') ''a'' = Some stale_item"
    by auto
  from n used_facade_memory_only have "a = None" by simp
  with g m have "get_e quiet_world 6000 used_facade ''a'' = Inr (None, s')"
    and "map_of (memoryCache s') ''a'' = Some stale_item" by blast+
  then have "\<exists>s'. get_e quiet_world 6000 used_facade ''a'' = Inr (None, s') \<and>
          map_of (memoryCache s') ''a'' = Some stale_item"
    by (intro exI[of _ s'] conjI)
  moreover from t used_facade_item stale_item_expired
  have "map_of (memoryCache (cleanupExpiredItems 6000 used_facade)) ''a'' = None" by simp
  ultimately show ?thesis by (rule conjI)
qed

text \<open>
  C5 as stated fails: the entry of \<open>''a''\<close> is 6000 ms old with a TTL of 5 s, \<^verbatim>\<open>get\<close>
  returns \<^verbatim>\<open>null\<close>, and the map after the \<^verbatim>\<open>get\<close> still holds the entry.
\<close>

theorem get_does_not_delete_expired_entry:
  "isExpired 6000 stale_item \<and>
   map_of (memoryCache used_facade) ''a'' = Some stale_item \<and>
   get_e quiet_world 6000 used_facade ''a'' =
     Inr (None, used_facade\<lparr>stats := (stats used_facade)\<lparr>total_requests := 4, total_misses := 2\<rparr>\<rparr>) \<and>
   map_of (memoryCache (used_facade\<lparr>stats := (stats used_facade)\<lparr>total_requests := 4, total_misses := 2\<rparr>\<rparr>)) ''a''
     = Some stale_item"
proof -
  have c: "enableMemoryCache (config used_facade)" by (rule used_facade_enabled)
  have l: "live_item 6000 (used_facade\<lparr>stats := (stats used_facade)\<lparr>total_requests := total_requests (stats used_facade) + 1\<rparr>\<rparr>) ''a'' = None"
    using used_facade_item stale_item_expired by (simp add: live_item_def)
  have ar: "active_redis (used_facade\<lparr>stats := (stats used_facade)\<lparr>total_requests := total_requests (stats used_facade) + 1\<rparr>\<rparr>) = None"
    using used_facade_memory_only by (auto simp: active_redis_def split: if_splits)
  have st: "total_requests (stats used_facade) = 3 \<and> total_misses (stats used_facade) = 1"
    by (simp add: used_facade_def)
  have "get_e quiet_world 6000 used_facade ''a'' =
     Inr (None, used_facade\<lparr>stats := (stats used_facade)\<lparr>total_requests := 4, total_misses := 2\<rparr>\<rparr>)"
    using c l ar st by (simp add: get_e_def Let_def)
  then show ?thesis using stale_item_expired used_facade_item by simp
qed

subsection \<open>Expiry after a set\<close>

lemma set_memory_lookup:
  "enableMemoryCache (config s) \<Longrightarrow>
   map_of (memoryCache (set_memory now s k d t)) k =
     Some \<lparr> data = d, timestamp = now, ttl = ttl_of s t, accessCount = 0, lastAccessed = now \<rparr>"
  by (simp add: set_memory_def Let_def AList.update_conv')


lemma set_backend_config:
  "set_backend w s k d t = Inr (a, s') \<Longrightarrow> config s' = config s \<and> backendType s' = backendType s"
  by (auto simp: set_backend_def via_redis_def try_catch_def backend_error_def
      split: sum.splits option.splits prod.splits)

lemma set_backend_active:
  "set_backend w s k d t = Inr (a, s') \<Longrightarrow> (active_redis s' = None) = (active_redis s = None)"
  by (auto simp: set_backend_def via_redis_def try_catch_def backend_error_def active_redis_def
      split: sum.splits option.splits prod.splits if_splits)


lemma checkMemoryLimit_config [simp]:
  "config (checkMemoryLimit s) = config s" "backendType (checkMemoryLimit s) = backendType s"
  by (simp_all add: checkMemoryLimit_def Let_def)

lemma set_memory_config [simp]:
  "config (set_memory now s k d t) = config s" "backendType (set_memory now s k d t) = backendType s"
  by (simp_all add: set_memory_def Let_def)


lemma set_e_config:
  assumes "set_e w now s k d t = Inr (a, s')"
  shows "config s' = config s \<and> (active_redis s' = None) = (active_redis s = None)"
proof -
  from assms obtain s2 where b: "set_backend w (set_memory now s k d t) k d t = Inr ((), s2)"
    and s': "s' = checkMemoryLimit s2"
    by (auto simp: set_e_def split: sum.splits prod.splits)
  have 1: "config s2 = config s" using set_backend_config[OF b] by simp
  have "(active_redis s2 = None) = (active_redis (set_memory now s k d t) = None)"
    using b by (rule set_backend_active)
  moreover have "active_redis (set_memory now s k d t) = active_redis s"
    by (simp add: active_redis_def)
  moreover have "active_redis (checkMemoryLimit s2) = active_redis s2"
    by (simp add: active_redis_def)
  ultimately show ?thesis using 1 s' by simp
qed


lemma fresh_facade_eq:
  "fresh_facade =
     \<lparr> redisCache = None, memoryCache = [], config = default_config,
       stats = \<lparr> total_requests = 0, total_hits = 0, total_misses = 0, total_hitRate = 0,
                 backend_type = memory_backend, backend_status = connected, backend_hitRate = 0,
                 memoryCache_size = 0, memoryCache_hitRate = 0 \<rparr>,
       cleanupTimer = Some 60000, backendType = memory_backend \<rparr>"
  by (simp add: fresh_facade_def EnhancedCacheManager_new_def startCleanupTimer_def
      initializeBackend_def initializeMemoryOnly_def default_config_def split: backend.splits)





subsection \<open>The capacity check\<close>

lemma fold_delete_filter:
  "fold (\<lambda>e m. AList.delete (fst e) m) es m = filter (\<lambda>p. fst p \<notin> fst ` set es) m"
proof (induction es arbitrary: m)
  case Nil
  then show ?case by simp
next
  case (Cons e es)
  have "AList.delete (fst e) m = filter (\<lambda>p. fst p \<noteq> fst e) m"
    by (simp add: AList.delete_eq split_def eq_commute)
  then show ?case using Cons.IH[of "AList.delete (fst e) m"]
    by (simp add: conj_commute)
qed

lemma fold_delete_keys_filter:
  "fold AList.delete ks m = filter (\<lambda>p. fst p \<notin> set ks) m"
proof (induction ks arbitrary: m)
  case Nil
  then show ?case by simp
next
  case (Cons k ks)
  have "AList.delete k m = filter (\<lambda>p. fst p \<noteq> k) m"
    by (simp add: AList.delete_eq split_def eq_commute)
  then show ?case using Cons.IH[of "AList.delete k m"]
    by (simp add: conj_commute)
qed

lemma distinct_keys_filter: "distinct (map fst m) \<Longrightarrow> distinct (map fst (filter P m))"
  by (simp add: distinct_map_filter)

lemma key_in_sub:
  assumes "distinct (map fst m)" "set es \<subseteq> set m" "p \<in> set m"
  shows "(fst p \<in> fst ` set es) = (p \<in> set es)"
proof
  assume "fst p \<in> fst ` set es"
  then obtain q where q: "q \<in> set es" "fst q = fst p" by auto
  with assms(2) have "q \<in> set m" by auto
  with assms(1,3) q(2) have "q = p" by (simp add: inj_on_def distinct_map)
  with q(1) show "p \<in> set es" by simp
next
  assume "p \<in> set es"
  then show "fst p \<in> fst ` set es" by simp
qed

text \<open>What an eviction pass of \<open>j\<close> entries keeps, for any key function and any \<open>j\<close>.\<close>

lemma evict_retained_set:
  assumes "distinct (map fst m)"
  shows "set (filter (\<lambda>p. fst p \<notin> fst ` set (take j (sort_key f m))) m) =
         set (drop j (sort_key f m))"
proof -
  let ?xs = "sort_key f m"
  have dm: "distinct m" using assms by (rule distinct_map[THEN iffD1, THEN conjunct1])
  then have dx: "distinct ?xs" by simp
  have sub: "set (take j ?xs) \<subseteq> set m" using set_take_subset[of j ?xs] by simp
  have "set (filter (\<lambda>p. fst p \<notin> fst ` set (take j ?xs)) m) = set m - set (take j ?xs)"
    using key_in_sub[OF assms sub] by auto
  also have "\<dots> = set ?xs - set (take j ?xs)" by simp
  also have "\<dots> = set (drop j ?xs)"
  proof -
    have "set ?xs = set (take j ?xs) \<union> set (drop j ?xs)"
      using set_append[of "take j ?xs" "drop j ?xs"] by simp
    moreover have "set (take j ?xs) \<inter> set (drop j ?xs) = {}"
      using dx by (simp add: set_take_disj_set_drop_if_distinct)
    ultimately show ?thesis by auto
  qed
  finally show ?thesis .
qed

lemma evict_retained_length:
  assumes "distinct (map fst m)"
  shows "length (filter (\<lambda>p. fst p \<notin> fst ` set (take j (sort_key f m))) m) = length m - j"
proof -
  let ?xs = "sort_key f m"
  let ?r = "filter (\<lambda>p. fst p \<notin> fst ` set (take j ?xs)) m"
  have dm: "distinct m" using assms by (rule distinct_map[THEN iffD1, THEN conjunct1])
  then have "distinct ?r" by simp
  then have "length ?r = card (set ?r)" by (rule distinct_card[symmetric])
  also have "\<dots> = card (set (drop j ?xs))" by (rule arg_cong[OF evict_retained_set[OF assms]])
  also have "\<dots> = length (drop j ?xs)" using dm by (intro distinct_card) simp
  also have "\<dots> = length m - j" by simp
  finally show ?thesis .
qed

lemma evict_oldest_first:
  assumes "distinct (map fst m)"
    and "e \<in> set (take j (sort_key f m))"
    and "r \<in> set (filter (\<lambda>p. fst p \<notin> fst ` set (take j (sort_key f m))) m)"
  shows "f e \<le> f r"
proof -
  let ?xs = "sort_key f m"
  have "sorted (map f ?xs)" by (rule sorted_sort_key)
  then have "sorted (map f (take j ?xs) @ map f (drop j ?xs))"
    by (simp flip: map_append)
  then have "\<forall>x\<in>set (map f (take j ?xs)). \<forall>y\<in>set (map f (drop j ?xs)). x \<le> y"
    by (simp add: sorted_append)
  moreover have "r \<in> set (drop j ?xs)" using assms(3) evict_retained_set[OF assms(1)] by blast
  ultimately show ?thesis using assms(2) by auto
qed

lemma checkMemoryLimit_cases:
  "memoryCache (checkMemoryLimit s) =
     (if length (memoryCache s) > 1000
      then filter (\<lambda>p. fst p \<notin> fst ` set (take (length (memoryCache s) div 10)
                        (sort_key (\<lambda>e. lastAccessed (snd e)) (memoryCache s)))) (memoryCache s)
      else memoryCache s)"
  by (simp add: checkMemoryLimit_def Let_def fold_delete_filter)

lemma checkMemoryLimit_distinct:
  "distinct (map fst (memoryCache s)) \<Longrightarrow> distinct (map fst (memoryCache (checkMemoryLimit s)))"
  by (simp add: checkMemoryLimit_cases distinct_keys_filter)

lemma checkMemoryLimit_subset: "set (memoryCache (checkMemoryLimit s)) \<subseteq> set (memoryCache s)"
  by (auto simp: checkMemoryLimit_cases)

lemma checkMemoryLimit_length:
  assumes "distinct (map fst (memoryCache s))"
  shows "length (memoryCache (checkMemoryLimit s)) =
     (if length (memoryCache s) > 1000
      then length (memoryCache s) - length (memoryCache s) div 10 else length (memoryCache s))"
  using evict_retained_length[OF assms, of "length (memoryCache s) div 10" "\<lambda>e. lastAccessed (snd e)"]
  by (simp add: checkMemoryLimit_cases)

lemma checkMemoryLimit_oldest_first:
  assumes "distinct (map fst (memoryCache s))"
    and "e \<in> set (memoryCache s) - set (memoryCache (checkMemoryLimit s))"
    and "r \<in> set (memoryCache (checkMemoryLimit s))"
  shows "lastAccessed (snd e) \<le> lastAccessed (snd r)"
proof (cases "length (memoryCache s) > 1000")
  case False
  with assms(2) show ?thesis by (simp add: checkMemoryLimit_cases)
next
  case True
  let ?f = "\<lambda>e. lastAccessed (snd e)"
  let ?m = "memoryCache s"
  let ?t = "take (length ?m div 10) (sort_key ?f ?m)"
  have m': "memoryCache (checkMemoryLimit s) = filter (\<lambda>p. fst p \<notin> fst ` set ?t) ?m"
    using True by (simp add: checkMemoryLimit_cases)
  have sub: "set ?t \<subseteq> set ?m" using set_take_subset[of "length ?m div 10" "sort_key ?f ?m"] by simp
  from assms(2) m' have "e \<in> set ?m" "fst e \<in> fst ` set ?t" by auto
  then have "e \<in> set ?t" using key_in_sub[OF assms(1) sub] by simp
  moreover from assms(3) m' have "r \<in> set (filter (\<lambda>p. fst p \<notin> fst ` set ?t) ?m)" by simp
  ultimately show ?thesis using evict_oldest_first[OF assms(1), of e "length ?m div 10" ?f r] by simp
qed

subsection \<open>The facade without a remote tier\<close>

lemma no_client_inactive: "redisCache s = None \<Longrightarrow> active_redis s = None"
  by (simp add: active_redis_def)

lemma set_e_memory_only:
  "active_redis s = None \<Longrightarrow>
     set_e w now s k d t = Inr ((), checkMemoryLimit (set_memory now s k d t))"
proof -
  assume "active_redis s = None"
  then have "active_redis (set_memory now s k d t) = None"
    by (auto simp: active_redis_def split: if_splits)
  then show ?thesis by (simp add: set_e_def set_backend_def)
qed

lemma get_e_memory_only:
  assumes "active_redis s = None" "get_e w now s k = Inr (a, s')"
  shows "memoryCache s' = memoryCache s \<or>
         (\<exists>item. map_of (memoryCache s) k = Some item \<and>
                 memoryCache s' = AList.update k (updateAccessStats now item) (memoryCache s))"
  using assms
  by (auto simp: get_e_def live_item_def active_redis_def Let_def split: option.splits if_splits)

lemma delete_e_memory_only:
  assumes "active_redis s = None" "delete_e w s k = Inr (a, s')"
  shows "memoryCache s' = memoryCache s \<or> memoryCache s' = AList.delete k (memoryCache s)"
  using assms
  by (auto simp: delete_e_def active_redis_def Let_def split: option.splits if_splits)

lemma exists_e_memory_only:
  assumes "active_redis s = None" "exists_e w now s k = Inr (a, s')"
  shows "memoryCache s' = memoryCache s"
  using assms
  by (auto simp: exists_e_def active_redis_def Let_def split: option.splits if_splits)

lemma clear_e_memoryCache:
  assumes "clear_e w s = Inr (a, s')"
  shows "memoryCache s' = memoryCache s \<or> memoryCache s' = []"
  using clear_e_memory[OF assms] by (simp split: if_splits)

subsection \<open>The memory tier stays within its limit\<close>

lemma length_update:
  "length (AList.update k v m) = (if k \<in> fst ` set m then length m else Suc (length m))"
  by (induction m) auto

lemma length_update_present: "map_of m k = Some x \<Longrightarrow> length (AList.update k v m) = length m"
  by (simp add: length_update map_of_eq_None_iff[symmetric] del: map_of_eq_None_iff)

lemma mem_parts_update_present:
  assumes "distinct (map fst m)" "length m \<le> 1000" "map_of m k = Some x"
  shows "distinct (map fst (AList.update k v m)) \<and> length (AList.update k v m) \<le> 1000"
  using assms by (simp add: AList.distinct_update length_update_present)

lemma mem_parts_filter:
  assumes "distinct (map fst m)" "length m \<le> 1000"
  shows "distinct (map fst (filter P m)) \<and> length (filter P m) \<le> 1000"
  using assms length_filter_le[of P m] by (simp add: distinct_keys_filter del: length_filter_le)

lemma delete_as_filter: "AList.delete k m = filter (\<lambda>p. fst p \<noteq> k) m"
  by (simp add: AList.delete_eq split_def eq_commute)

lemma set_memory_parts:
  assumes "distinct (map fst (memoryCache s))" "length (memoryCache s) \<le> 1000"
  shows "distinct (map fst (memoryCache (set_memory now s k d t))) \<and>
         length (memoryCache (set_memory now s k d t)) \<le> 1001"
  using assms by (auto simp: set_memory_def Let_def AList.distinct_update length_update)

lemma checkMemoryLimit_restores:
  assumes "distinct (map fst (memoryCache s))" "length (memoryCache s) \<le> 1001"
  shows "length (memoryCache (checkMemoryLimit s)) \<le> 1000"
proof -
  let ?n = "length (memoryCache s)"
  have "length (memoryCache (checkMemoryLimit s)) = (if ?n > 1000 then ?n - ?n div 10 else ?n)"
    by (rule checkMemoryLimit_length[OF assms(1)])
  moreover have "(if ?n > 1000 then ?n - ?n div 10 else ?n) \<le> 1000"
    using assms(2) by (cases "?n > 1000") auto
  ultimately show ?thesis by simp
qed

lemma set_e_within_limit:
  assumes "within_limit s" "set_e w now s k d t = Inr (a, s')"
  shows "within_limit s'"
proof -
  from assms(1) have r: "redisCache s = None" and d: "distinct (map fst (memoryCache s))"
    and l: "length (memoryCache s) \<le> 1000" by (simp_all add: within_limit_def)
  have "set_e w now s k d t = Inr ((), checkMemoryLimit (set_memory now s k d t))"
    using r by (simp add: set_e_memory_only no_client_inactive)
  with assms(2) have s': "s' = checkMemoryLimit (set_memory now s k d t)" by simp
  note p = set_memory_parts[OF d l, of now k d t]
  have "distinct (map fst (memoryCache s'))"
    using p s' by (simp add: checkMemoryLimit_distinct)
  moreover have "length (memoryCache s') \<le> 1000"
    using p s' by (simp add: checkMemoryLimit_restores)
  moreover have "redisCache s' = None" using r s' by simp
  ultimately show ?thesis by (simp add: within_limit_def)
qed

lemma get_e_within_limit:
  assumes "within_limit s" "get_e w now s k = Inr (a, s')"
  shows "within_limit s'"
proof -
  from assms(1) have r: "redisCache s = None" and d: "distinct (map fst (memoryCache s))"
    and l: "length (memoryCache s) \<le> 1000" by (simp_all add: within_limit_def)
  have r': "redisCache s' = None" using r assms(2) by (rule get_e_redisCache_None)
  from get_e_memory_only[OF no_client_inactive[OF r] assms(2)]
  have "distinct (map fst (memoryCache s')) \<and> length (memoryCache s') \<le> 1000"
    using d l mem_parts_update_present[OF d l] by auto
  with r' show ?thesis by (simp add: within_limit_def)
qed

lemma delete_e_within_limit:
  assumes "within_limit s" "delete_e w s k = Inr (a, s')"
  shows "within_limit s'"
proof -
  from assms(1) have r: "redisCache s = None" and d: "distinct (map fst (memoryCache s))"
    and l: "length (memoryCache s) \<le> 1000" by (simp_all add: within_limit_def)
  have r': "redisCache s' = None" using r assms(2) by (rule delete_e_redisCache_None)
  from delete_e_memory_only[OF no_client_inactive[OF r] assms(2)]
  have "distinct (map fst (memoryCache s')) \<and> length (memoryCache s') \<le> 1000"
    using d l mem_parts_filter[OF d l] by (auto simp: delete_as_filter)
  with r' show ?thesis by (simp add: within_limit_def)
qed

lemma exists_e_within_limit:
  assumes "within_limit s" "exists_e w now s k = Inr (a, s')"
  shows "within_limit s'"
proof -
  from assms(1) have r: "redisCache s = None" by (simp add: within_limit_def)
  have r': "redisCache s' = None" using r assms(2) by (rule exists_e_redisCache_None)
  from exists_e_memory_only[OF no_client_inactive[OF r] assms(2)] assms(1) r'
  show ?thesis by (simp add: within_limit_def)
qed

lemma clear_e_within_limit:
  assumes "within_limit s" "clear_e w s = Inr (a, s')"
  shows "within_limit s'"
proof -
  from assms(1) have r: "redisCache s = None" by (simp add: within_limit_def)
  have r': "redisCache s' = None" using r assms(2) by (rule clear_e_redisCache_None)
  from clear_e_memoryCache[OF assms(2)] assms(1) r'
  show ?thesis by (auto simp: within_limit_def)
qed

lemma sweep_within_limit: "within_limit s \<Longrightarrow> within_limit (sweep now s)"
  using mem_parts_filter
  by (auto simp: within_limit_def sweep_def cleanupExpiredItems_def Let_def fold_delete_keys_filter)

lemma mget_e_within_limit:
  "within_limit s \<Longrightarrow> mget_e w now s ks = Inr (a, s') \<Longrightarrow> within_limit s'"
proof (induction ks arbitrary: s a)
  case Nil
  then show ?case by simp
next
  case (Cons k ks)
  then show ?case
    by (auto split: sum.splits prod.splits dest: get_e_within_limit)
qed

lemma mset_seq_within_limit:
  "within_limit s \<Longrightarrow> mset_seq w now s items = Inr (a, s') \<Longrightarrow> within_limit s'"
proof (induction items arbitrary: s)
  case Nil
  then show ?case by simp
next
  case (Cons it items)
  then show ?case
    by (cases it) (auto split: sum.splits prod.splits dest: set_e_within_limit)
qed

lemma mset_e_memory_only:
  "redisCache s = None \<Longrightarrow> mset_e w now s items = mset_seq w now s items"
  by (simp add: mset_e_def no_client_inactive)

lemma exec_within_limit:
  assumes "within_limit s" "exec st s = Inr (a, s')"
  shows "within_limit s'"
proof -
  obtain w now o' where st: "st = (w, now, o')" by (cases st) auto
  from assms(1) have r: "redisCache s = None" by (simp add: within_limit_def)
  show ?thesis
  proof (cases o')
    case (Get k) with st assms show ?thesis
      by (auto split: sum.splits prod.splits dest: get_e_within_limit)
  next
    case (Set k d t) with st assms show ?thesis by (auto dest: set_e_within_limit)
  next
    case (Delete k) with st assms show ?thesis by (auto dest: delete_e_within_limit)
  next
    case (Exists k) with st assms show ?thesis
      by (auto split: sum.splits prod.splits dest: exists_e_within_limit)
  next
    case (MGet ks) with st assms show ?thesis
      by (auto split: sum.splits prod.splits dest: mget_e_within_limit)
  next
    case (MSet items) with st assms r show ?thesis
      by (auto simp: mset_e_memory_only dest: mset_seq_within_limit)
  next
    case Clear with st assms show ?thesis by (auto dest: clear_e_within_limit)
  next
    case GetStats with st assms show ?thesis
      by (auto simp: getStats_e_def Let_def within_limit_def)
  next
    case Sweep with st assms show ?thesis by (auto simp: sweep_within_limit)
  qed
qed

lemma run_within_limit:
  "within_limit s \<Longrightarrow> run sts s = Inr (a, s') \<Longrightarrow> within_limit s'"
proof (induction sts arbitrary: s)
  case Nil
  then show ?case by simp
next
  case (Cons st sts)
  then show ?case
    by (auto split: sum.splits prod.splits dest: exec_within_limit)
qed

lemma new_within_limit: "within_limit (EnhancedCacheManager_new cfg)"
  by (simp add: EnhancedCacheManager_new_def startCleanupTimer_def initializeBackend_def
      initializeMemoryOnly_def within_limit_def split: backend.splits)

subsection \<open>Access times never lie ahead of the clock\<close>

lemma set_update_subset: "set (AList.update k v m) \<subseteq> insert (k, v) (set m)"
  by (induction m) auto

lemma accessed_by_mono: "accessed_by t s \<Longrightarrow> t \<le> t' \<Longrightarrow> accessed_by t' s"
  by (auto simp: accessed_by_def list_all_iff)

lemma accessed_by_update:
  assumes "accessed_by t s" "lastAccessed v \<le> t"
  shows "list_all (\<lambda>e. lastAccessed (snd e) \<le> t) (AList.update k v (memoryCache s))"
  using assms set_update_subset[of k v "memoryCache s"]
  by (auto simp: accessed_by_def list_all_iff)

lemma accessed_by_subset:
  assumes "accessed_by t s" "set (memoryCache s') \<subseteq> set (memoryCache s)"
  shows "accessed_by t s'"
  using assms by (auto simp: accessed_by_def list_all_iff)

lemma set_memory_accessed_by:
  "accessed_by now s \<Longrightarrow> accessed_by now (set_memory now s k d t)"
  using accessed_by_update[of now s "\<lparr> data = d, timestamp = now, ttl = ttl_of s t,
                   accessCount = 0, lastAccessed = now \<rparr>" k]
  by (simp add: set_memory_def Let_def accessed_by_def)

lemma set_e_accessed_by:
  assumes "within_limit s" "accessed_by now s" "set_e w now s k d t = Inr (a, s')"
  shows "accessed_by now s'"
proof -
  from assms(1) have r: "redisCache s = None" by (simp add: within_limit_def)
  have "set_e w now s k d t = Inr ((), checkMemoryLimit (set_memory now s k d t))"
    using r by (simp add: set_e_memory_only no_client_inactive)
  with assms(3) have s': "s' = checkMemoryLimit (set_memory now s k d t)" by simp
  show ?thesis
    using set_memory_accessed_by[OF assms(2), of k d t] checkMemoryLimit_subset s'
    by (auto intro: accessed_by_subset)
qed

lemma get_e_accessed_by:
  assumes "within_limit s" "accessed_by now s" "get_e w now s k = Inr (a, s')"
  shows "accessed_by now s'"
proof -
  from assms(1) have r: "redisCache s = None" by (simp add: within_limit_def)
  from get_e_memory_only[OF no_client_inactive[OF r] assms(3)]
  show ?thesis
  proof
    assume "memoryCache s' = memoryCache s"
    with assms(2) show ?thesis by (simp add: accessed_by_def)
  next
    assume "\<exists>item. map_of (memoryCache s) k = Some item \<and>
                 memoryCache s' = AList.update k (updateAccessStats now item) (memoryCache s)"
    then obtain item where
      m: "memoryCache s' = AList.update k (updateAccessStats now item) (memoryCache s)" by auto
    have "lastAccessed (updateAccessStats now item) \<le> now" by (simp add: updateAccessStats_def)
    from accessed_by_update[OF assms(2) this, of k] m show ?thesis by (simp add: accessed_by_def)
  qed
qed

lemma delete_e_accessed_by:
  assumes "within_limit s" "accessed_by now s" "delete_e w s k = Inr (a, s')"
  shows "accessed_by now s'"
proof -
  from assms(1) have r: "redisCache s = None" by (simp add: within_limit_def)
  from delete_e_memory_only[OF no_client_inactive[OF r] assms(3)]
  have "set (memoryCache s') \<subseteq> set (memoryCache s)" by (auto simp: delete_as_filter)
  with assms(2) show ?thesis by (rule accessed_by_subset)
qed

lemma exists_e_accessed_by:
  assumes "within_limit s" "accessed_by now s" "exists_e w now s k = Inr (a, s')"
  shows "accessed_by now s'"
proof -
  from assms(1) have r: "redisCache s = None" by (simp add: within_limit_def)
  from exists_e_memory_only[OF no_client_inactive[OF r] assms(3)] assms(2)
  show ?thesis by (simp add: accessed_by_def)
qed

lemma clear_e_accessed_by:
  assumes "accessed_by now s" "clear_e w s = Inr (a, s')"
  shows "accessed_by now s'"
proof -
  from clear_e_memoryCache[OF assms(2)]
  have "set (memoryCache s') \<subseteq> set (memoryCache s)" by auto
  with assms(1) show ?thesis by (rule accessed_by_subset)
qed

lemma sweep_accessed_by: "accessed_by now s \<Longrightarrow> accessed_by now (sweep t s)"
  by (auto simp: sweep_def cleanupExpiredItems_def Let_def fold_delete_keys_filter
      intro: accessed_by_subset)

lemma mget_e_accessed_by:
  "within_limit s \<Longrightarrow> accessed_by now s \<Longrightarrow> mget_e w now s ks = Inr (a, s') \<Longrightarrow> accessed_by now s'"
proof (induction ks arbitrary: s a)
  case Nil
  then show ?case by simp
next
  case (Cons k ks)
  from Cons.prems(3) obtain r s1 rs where
    g: "get_e w now s k = Inr (r, s1)" and m: "mget_e w now s1 ks = Inr (rs, s')"
    by (auto split: sum.splits prod.splits)
  have "within_limit s1" using Cons.prems(1) g by (rule get_e_within_limit)
  moreover have "accessed_by now s1" using Cons.prems(1,2) g by (rule get_e_accessed_by)
  ultimately show ?case using m by (rule Cons.IH)
qed

lemma mset_seq_accessed_by:
  "within_limit s \<Longrightarrow> accessed_by now s \<Longrightarrow> mset_seq w now s items = Inr (a, s') \<Longrightarrow>
     accessed_by now s'"
proof (induction items arbitrary: s)
  case Nil
  then show ?case by simp
next
  case (Cons it items)
  obtain k d t where it: "it = (k, d, t)" by (cases it) auto
  from Cons.prems(3) it obtain s1 where
    g: "set_e w now s k d t = Inr ((), s1)" and m: "mset_seq w now s1 items = Inr (a, s')"
    by (auto split: sum.splits prod.splits)
  have "within_limit s1" using Cons.prems(1) g by (rule set_e_within_limit)
  moreover have "accessed_by now s1" using Cons.prems(1,2) g by (rule set_e_accessed_by)
  ultimately show ?case using m by (rule Cons.IH)
qed

lemma exec_accessed_by:
  assumes "within_limit s" "accessed_by (time_of st) s" "exec st s = Inr (a, s')"
  shows "accessed_by (time_of st) s'"
proof -
  obtain w now o' where st: "st = (w, now, o')" by (cases st) auto
  then have t: "time_of st = now" by (simp add: time_of_def)
  from assms(1) have r: "redisCache s = None" by (simp add: within_limit_def)
  note a = assms(2)[unfolded t]
  have "accessed_by now s'"
  proof (cases o')
    case (Get k) with st assms(1,3) a show ?thesis
      by (auto split: sum.splits prod.splits dest: get_e_accessed_by)
  next
    case (Set k d t) with st assms(1,3) a show ?thesis by (auto dest: set_e_accessed_by)
  next
    case (Delete k) with st assms(1,3) a show ?thesis by (auto dest: delete_e_accessed_by)
  next
    case (Exists k) with st assms(1,3) a show ?thesis
      by (auto split: sum.splits prod.splits dest: exists_e_accessed_by)
  next
    case (MGet ks) with st assms(1,3) a show ?thesis
      by (auto split: sum.splits prod.splits dest: mget_e_accessed_by)
  next
    case (MSet items) with st assms(1,3) a r show ?thesis
      by (auto simp: mset_e_memory_only dest: mset_seq_accessed_by)
  next
    case Clear with st assms(1,3) a show ?thesis by (auto dest: clear_e_accessed_by)
  next
    case GetStats with st assms(1,3) a show ?thesis
      by (auto simp: getStats_e_def Let_def accessed_by_def)
  next
    case Sweep with st assms(1,3) a show ?thesis by (auto simp: sweep_accessed_by)
  qed
  with t show ?thesis by simp
qed

lemma run_accessed_by:
  "within_limit s \<Longrightarrow> accessed_by t s \<Longrightarrow> sorted (t # map time_of sts @ [now]) \<Longrightarrow>
     run sts s = Inr (a, s') \<Longrightarrow> accessed_by now s'"
proof (induction sts arbitrary: s t)
  case Nil
  then show ?case by (auto intro: accessed_by_mono)
next
  case (Cons st sts)
  from Cons.prems(4) obtain s1 where
    e: "exec st s = Inr ((), s1)" and r: "run sts s1 = Inr (a, s')"
    by (auto split: sum.splits prod.splits)
  from Cons.prems(3) have le: "t \<le> time_of st" and srt: "sorted (time_of st # map time_of sts @ [now])"
    by simp_all
  have w1: "within_limit s1" using Cons.prems(1) e by (rule exec_within_limit)
  have "accessed_by (time_of st) s" using Cons.prems(2) le by (rule accessed_by_mono)
  with Cons.prems(1) have "accessed_by (time_of st) s1" using e by (rule exec_accessed_by)
  with w1 show ?case using srt r by (rule Cons.IH)
qed

lemma new_accessed_by: "accessed_by t (EnhancedCacheManager_new cfg)"
  by (simp add: EnhancedCacheManager_new_def startCleanupTimer_def initializeBackend_def
      initializeMemoryOnly_def accessed_by_def split: backend.splits)

subsection \<open>The configuration is never changed\<close>

lemma get_e_config: "get_e w now s k = Inr (a, s') \<Longrightarrow> config s' = config s"
  by (auto simp: get_e_def via_redis_def try_catch_def backend_error_def Let_def
      split: sum.splits option.splits prod.splits if_splits)

lemma delete_e_config: "delete_e w s k = Inr (a, s') \<Longrightarrow> config s' = config s"
  by (auto simp: delete_e_def via_redis_def try_catch_def backend_error_def Let_def
      split: sum.splits option.splits prod.splits if_splits)

lemma exists_e_config: "exists_e w now s k = Inr (a, s') \<Longrightarrow> config s' = config s"
  by (auto simp: exists_e_def via_redis_def try_catch_def backend_error_def Let_def
      split: sum.splits option.splits prod.splits if_splits)

lemma clear_e_config: "clear_e w s = Inr (a, s') \<Longrightarrow> config s' = config s"
  by (auto simp: clear_e_def via_redis_def try_catch_def backend_error_def Let_def
      split: sum.splits option.splits prod.splits if_splits)

lemma mget_e_config: "mget_e w now s ks = Inr (a, s') \<Longrightarrow> config s' = config s"
proof (induction ks arbitrary: s a)
  case Nil
  then show ?case by simp
next
  case (Cons k ks)
  then show ?case
    by (auto split: sum.splits prod.splits dest!: get_e_config)
qed

lemma mset_seq_config: "mset_seq w now s items = Inr (a, s') \<Longrightarrow> config s' = config s"
proof (induction items arbitrary: s)
  case Nil
  then show ?case by simp
next
  case (Cons it items)
  obtain k d t where it: "it = (k, d, t)" by (cases it) auto
  from Cons.prems it obtain s1 where
    g: "set_e w now s k d t = Inr ((), s1)" and m: "mset_seq w now s1 items = Inr (a, s')"
    by (auto split: sum.splits prod.splits)
  from set_e_config[OF g] Cons.IH[OF m] show ?case by simp
qed

lemma mset_memory_config [simp]: "config (mset_memory now s items) = config s"
  by (induction items arbitrary: s) auto

lemma mset_backend_config: "mset_backend w s items = Inr (a, s') \<Longrightarrow> config s' = config s"
proof (induction items arbitrary: s)
  case Nil
  then show ?case by simp
next
  case (Cons it items)
  obtain k d t where it: "it = (k, d, t)" by (cases it) auto
  from Cons.prems it obtain s1 where
    g: "set_backend w s k d t = Inr ((), s1)" and m: "mset_backend w s1 items = Inr (a, s')"
    by (auto split: sum.splits prod.splits)
  from set_backend_config[OF g] Cons.IH[OF m] show ?case by simp
qed

lemma checkMemoryLimit_pow_config [simp]: "config ((checkMemoryLimit ^^ n) s) = config s"
  by (induction n) auto

lemma mset_e_config:
  assumes "mset_e w now s items = Inr (a, s')"
  shows "config s' = config s"
proof (cases "active_redis s = None")
  case True
  with assms show ?thesis by (auto simp: mset_e_def dest: mset_seq_config)
next
  case False
  with assms obtain s2 where
    b: "mset_backend w (mset_memory now s items) items = Inr ((), s2)"
    and s': "s' = (checkMemoryLimit ^^ length items) s2"
    by (auto simp: mset_e_def split: sum.splits prod.splits)
  from mset_backend_config[OF b] s' show ?thesis by simp
qed

lemma exec_config:
  assumes "exec st s = Inr (a, s')"
  shows "config s' = config s"
proof -
  obtain w now o' where st: "st = (w, now, o')" by (cases st) auto
  show ?thesis
  proof (cases o')
    case (Get k) with st assms show ?thesis
      by (auto split: sum.splits prod.splits dest: get_e_config)
  next
    case (Set k d t) with st assms show ?thesis by (auto dest: set_e_config)
  next
    case (Delete k) with st assms show ?thesis by (auto dest: delete_e_config)
  next
    case (Exists k) with st assms show ?thesis
      by (auto split: sum.splits prod.splits dest: exists_e_config)
  next
    case (MGet ks) with st assms show ?thesis
      by (auto split: sum.splits prod.splits dest: mget_e_config)
  next
    case (MSet items) with st assms show ?thesis by (auto dest: mset_e_config)
  next
    case Clear with st assms show ?thesis by (auto dest: clear_e_config)
  next
    case GetStats with st assms show ?thesis
      by (auto simp: getStats_e_def Let_def)
  next
    case Sweep with st assms show ?thesis
      by (auto simp: sweep_def cleanupExpiredItems_def Let_def)
  qed
qed

lemma run_config: "run sts s = Inr (a, s') \<Longrightarrow> config s' = config s"
proof (induction sts arbitrary: s)
  case Nil
  then show ?case by simp
next
  case (Cons st sts)
  from Cons.prems obtain s1 where
    e: "exec st s = Inr ((), s1)" and r: "run sts s1 = Inr (a, s')"
    by (auto split: sum.splits prod.splits)
  from exec_config[OF e] Cons.IH[OF r] show ?case by simp
qed

lemma new_config: "config (EnhancedCacheManager_new cfg) = cfg"
  by (simp add: EnhancedCacheManager_new_def startCleanupTimer_def initializeBackend_def
      initializeMemoryOnly_def split: backend.splits)

subsection \<open>The entry just written survives the capacity check\<close>

lemma insort_key_snoc:
  "f a \<le> f x \<Longrightarrow> insort_key f a (ys @ [x]) = insort_key f a ys @ [x]"
  by (induction ys) auto

lemma sort_key_snoc:
  "\<forall>e\<in>set m. f e \<le> f x \<Longrightarrow> sort_key f (m @ [x]) = sort_key f m @ [x]"
  by (induction m) (auto simp: insort_key_snoc)

lemma update_fresh: "k \<notin> fst ` set m \<Longrightarrow> AList.update k v m = m @ [(k, v)]"
  by (induction m) auto

lemma map_of_filter_keep:
  assumes "distinct (map fst m)" "map_of m k = Some v" "P (k, v)"
  shows "map_of (filter P m) k = Some v"
proof -
  from assms(2) have "(k, v) \<in> set m" by (rule map_of_SomeD)
  with assms(3) have "(k, v) \<in> set (filter P m)" by simp
  moreover have "distinct (map fst (filter P m))" using assms(1) by (rule distinct_keys_filter)
  ultimately show ?thesis by (simp add: map_of_is_SomeI)
qed

lemma written_entry_survives:
  fixes s :: "'v EnhancedCacheManager"
  assumes d: "distinct (map fst (memoryCache s))" and l: "length (memoryCache s) \<le> 1000"
    and a: "accessed_by now s" and e: "enableMemoryCache (config s)"
  shows "map_of (memoryCache (checkMemoryLimit (set_memory now s k v t))) k =
           Some \<lparr> data = v, timestamp = now, ttl = ttl_of s t, accessCount = 0, lastAccessed = now \<rparr>"
proof -
  let ?item = "\<lparr> data = v, timestamp = now, ttl = ttl_of s t, accessCount = 0, lastAccessed = now \<rparr>"
  let ?m = "memoryCache s"
  let ?s1 = "set_memory now s k v t"
  let ?m1 = "memoryCache ?s1"
  let ?f = "\<lambda>e :: key \<times> 'v CacheItem. lastAccessed (snd e)"
  have m1: "?m1 = AList.update k ?item ?m" using e by (simp add: set_memory_def Let_def)
  have lk: "map_of ?m1 k = Some ?item" using e by (rule set_memory_lookup)
  have d1: "distinct (map fst ?m1)" using set_memory_parts[OF d l] by simp
  show ?thesis
  proof (cases "length ?m1 > 1000")
    case False
    with lk show ?thesis by (simp add: checkMemoryLimit_cases)
  next
    case True
    have fresh: "k \<notin> fst ` set ?m"
    proof
      assume "k \<in> fst ` set ?m"
      then have "length ?m1 = length ?m" by (simp add: m1 length_update)
      with l True show False by simp
    qed
    then have app: "?m1 = ?m @ [(k, ?item)]" by (simp add: m1 update_fresh)
    have n: "length ?m1 = Suc (length ?m)" by (simp add: app)
    have "\<forall>x\<in>set ?m. ?f x \<le> ?f (k, ?item)"
      using a by (simp add: accessed_by_def list_all_iff)
    then have srt: "sort_key ?f ?m1 = sort_key ?f ?m @ [(k, ?item)]"
      unfolding app by (rule sort_key_snoc)
    have "length ?m1 div 10 \<le> length ?m" using n by simp
    then have tk: "take (length ?m1 div 10) (sort_key ?f ?m1) =
                   take (length ?m1 div 10) (sort_key ?f ?m)"
      by (simp add: srt)
    have "set (take (length ?m1 div 10) (sort_key ?f ?m)) \<subseteq> set ?m"
      using set_take_subset[of "length ?m1 div 10" "sort_key ?f ?m"] by simp
    with fresh have keep: "k \<notin> fst ` set (take (length ?m1 div 10) (sort_key ?f ?m1))"
      unfolding tk by auto
    have "memoryCache (checkMemoryLimit ?s1) =
            filter (\<lambda>p. fst p \<notin> fst ` set (take (length ?m1 div 10) (sort_key ?f ?m1))) ?m1"
      using True by (simp add: checkMemoryLimit_cases)
    moreover have "map_of (filter (\<lambda>p. fst p \<notin> fst ` set (take (length ?m1 div 10) (sort_key ?f ?m1))) ?m1) k
                     = Some ?item"
      using d1 lk keep by (intro map_of_filter_keep) simp_all
    ultimately show ?thesis by simp
  qed
qed

lemma get_e_live:
  assumes "enableMemoryCache (config s)" "map_of (memoryCache s) k = Some item"
    "\<not> isExpired now item"
  shows "\<exists>s'. get_e w now s k = Inr (Some (data item), s')"
  using assms by (simp add: get_e_def live_item_def Let_def)

subsection \<open>Filling the memory tier\<close>

lemma run_append:
  "run (xs @ ys) s = (case run xs s of Inl x \<Rightarrow> Inl x | Inr (_, s') \<Rightarrow> run ys s')"
  by (induction xs arbitrary: s) (auto split: sum.splits prod.splits)

lemma key_n_fresh: "key_n n \<notin> fst ` set (map (\<lambda>i. (key_n i, filler_item)) [0..<n])"
proof
  assume "key_n n \<in> fst ` set (map (\<lambda>i. (key_n i, filler_item)) [0..<n])"
  then obtain i where "i < n" "key_n n = key_n i" by auto
  then have "length (key_n n) = length (key_n i)" by simp
  with \<open>i < n\<close> show False by (simp add: key_n_def)
qed

lemma filled_memory_only: "active_redis (filled n) = None"
  by (simp add: filled_def active_redis_def fresh_facade_eq)

lemma fill_step:
  assumes "n < 1000"
  shows "exec (quiet_world, 0, Set (key_n n) 0 None) (filled n) = Inr ((), filled (Suc n))"
proof -
  have "memoryCache (set_memory 0 (filled n) (key_n n) 0 None) =
          AList.update (key_n n) filler_item (map (\<lambda>i. (key_n i, filler_item)) [0..<n])"
    by (simp add: set_memory_def filled_def fresh_facade_eq default_config_def ttl_of_def
        filler_item_def Let_def)
  also have "\<dots> = map (\<lambda>i. (key_n i, filler_item)) [0..<n] @ [(key_n n, filler_item)]"
    using key_n_fresh[of n] by (rule update_fresh)
  also have "\<dots> = map (\<lambda>i. (key_n i, filler_item)) [0..<Suc n]" by simp
  finally have m: "memoryCache (set_memory 0 (filled n) (key_n n) 0 None) =
                     map (\<lambda>i. (key_n i, filler_item)) [0..<Suc n]" .
  have s1: "set_memory 0 (filled n) (key_n n) 0 None = filled (Suc n)"
  proof -
    have "set_memory 0 (filled n) (key_n n) 0 None =
            (filled n)\<lparr>memoryCache := memoryCache (set_memory 0 (filled n) (key_n n) 0 None)\<rparr>"
      by (simp add: set_memory_def Let_def)
    also have "\<dots> = filled (Suc n)" unfolding m by (simp add: filled_def)
    finally show ?thesis .
  qed
  have "length (memoryCache (filled (Suc n))) \<le> 1000" using assms by (simp add: filled_def)
  then have "checkMemoryLimit (filled (Suc n)) = filled (Suc n)"
    by (simp add: checkMemoryLimit_def)
  with s1 show ?thesis by (simp add: set_e_memory_only[OF filled_memory_only])
qed

lemma run_fill: "n \<le> 1000 \<Longrightarrow> run (fill n) fresh_facade = Inr ((), filled n)"
proof (induction n)
  case 0
  then show ?case by (simp add: fill_def filled_def fresh_facade_eq)
next
  case (Suc n)
  then have r: "run (fill n) fresh_facade = Inr ((), filled n)" and n: "n < 1000" by simp_all
  have "fill (Suc n) = fill n @ [(quiet_world, 0, Set (key_n n) 0 None)]"
    by (simp add: fill_def)
  then show ?case using r fill_step[OF n] by (simp add: run_append)
qed

lemma filled_length: "length (memoryCache (filled n)) = n"
  by (simp add: filled_def)

lemma fill_times: "map time_of (fill n) = replicate n 0"
  by (simp add: fill_def time_of_def comp_def map_replicate_const)

lemma sorted_replicate_snoc: "sorted (replicate n (0::int) @ [0])"
  by (simp add: sorted_append)

lemma new_key_not_filled: "''b'' \<notin> fst ` set (memoryCache (filled n))"
  by (auto simp: filled_def key_n_def)

subsection \<open>Eviction\<close>

text \<open>
  C6. In every state that a sequence of operations on a newly constructed facade reaches,
  the memory tier holds at most 1000 entries (the limit of \<^verbatim>\<open>checkMemoryLimit\<close>), and a \<^verbatim>\<open>set\<close>
  leaves at most 1000. What the \<^verbatim>\<open>set\<close> removes from the map it has written was accessed no
  later than anything it keeps. When the write brings the count above 1000, the pass
  removes a tenth of the entries (\<open>n div 10\<close> of \<open>n\<close>), which leaves the count strictly below
  the limit; otherwise nothing is removed.
\<close>

theorem eviction_drops_oldest_tenth:
  "\<exists>s m1 s'. run sts (EnhancedCacheManager_new cfg) = Inr ((), s) \<and>
     m1 = memoryCache (set_memory now s k d t) \<and>
     set_e w now s k d t = Inr ((), s') \<and>
     length (memoryCache s) \<le> 1000 \<and> length (memoryCache s') \<le> 1000 \<and>
     set (memoryCache s') \<subseteq> set m1 \<and>
     (\<forall>e\<in>set m1 - set (memoryCache s'). \<forall>r\<in>set (memoryCache s').
         lastAccessed (snd e) \<le> lastAccessed (snd r)) \<and>
     (length m1 > 1000 \<longrightarrow>
        length (memoryCache s') = length m1 - length m1 div 10 \<and> length (memoryCache s') < 1000) \<and>
     (length m1 \<le> 1000 \<longrightarrow> memoryCache s' = m1)"
proof -
  obtain s where r: "run sts (EnhancedCacheManager_new cfg) = Inr ((), s)"
    using run_returns[of sts "EnhancedCacheManager_new cfg"] by auto
  have wl: "within_limit s" using new_within_limit r by (rule run_within_limit)
  then have rc: "redisCache s = None" and d: "distinct (map fst (memoryCache s))"
    and l: "length (memoryCache s) \<le> 1000" by (simp_all add: within_limit_def)
  let ?s1 = "set_memory now s k d t"
  let ?m1 = "memoryCache ?s1"
  let ?s' = "checkMemoryLimit ?s1"
  have se: "set_e w now s k d t = Inr ((), ?s')"
    using rc by (simp add: set_e_memory_only no_client_inactive)
  have d1: "distinct (map fst ?m1)" and l1: "length ?m1 \<le> 1001"
    using set_memory_parts[OF d l, of now k d t] by simp_all
  have a: "length (memoryCache ?s') \<le> 1000" using d1 l1 by (rule checkMemoryLimit_restores)
  have b: "set (memoryCache ?s') \<subseteq> set ?m1" by (rule checkMemoryLimit_subset)
  have c: "\<forall>e\<in>set ?m1 - set (memoryCache ?s'). \<forall>r\<in>set (memoryCache ?s').
         lastAccessed (snd e) \<le> lastAccessed (snd r)"
    using checkMemoryLimit_oldest_first[OF d1] by blast
  have len: "length (memoryCache ?s') =
               (if length ?m1 > 1000 then length ?m1 - length ?m1 div 10 else length ?m1)"
    using d1 by (rule checkMemoryLimit_length)
  have e: "length ?m1 > 1000 \<longrightarrow>
        length (memoryCache ?s') = length ?m1 - length ?m1 div 10 \<and> length (memoryCache ?s') < 1000"
  proof
    assume g: "length ?m1 > 1000"
    with l1 have "length ?m1 = 1001" by simp
    with len show "length (memoryCache ?s') = length ?m1 - length ?m1 div 10 \<and>
                   length (memoryCache ?s') < 1000" by simp
  qed
  have f: "length ?m1 \<le> 1000 \<longrightarrow> memoryCache ?s' = ?m1"
    by (simp add: checkMemoryLimit_cases)
  show ?thesis
    apply (rule exI[of _ s])
    apply (rule exI[of _ ?m1])
    apply (rule exI[of _ ?s'])
    using r se l a b c e f apply (intro conjI)
            apply assumption
           apply (rule refl)
          apply assumption+
    done
qed

theorem eviction_drops_oldest_tenth_witness:
  "\<exists>s s'. run (fill 1000) fresh_facade = Inr ((), s) \<and> length (memoryCache s) = 1000 \<and>
          set_e quiet_world 0 s ''b'' 0 None = Inr ((), s') \<and> length (memoryCache s') = 901"
proof -
  from eviction_drops_oldest_tenth
         [where sts="fill 1000" and cfg=default_config and now=0 and k="''b''" and d=0
            and t=None and w=quiet_world]
  obtain s m1 s' where
    r: "run (fill 1000) (EnhancedCacheManager_new default_config) = Inr ((), s)"
    and m1: "m1 = memoryCache (set_memory 0 s ''b'' 0 None)"
    and se: "set_e quiet_world 0 s ''b'' 0 None = Inr ((), s')"
    and ev: "length m1 > 1000 \<longrightarrow>
        length (memoryCache s') = length m1 - length m1 div 10 \<and> length (memoryCache s') < 1000"
    by (elim exE conjE)
  from r have s: "s = filled 1000" using run_fill[of 1000] by (simp add: fresh_facade_def)
  have "m1 = AList.update ''b'' \<lparr> data = 0, timestamp = 0, ttl = 300, accessCount = 0, lastAccessed = 0 \<rparr>
               (memoryCache (filled 1000))"
    unfolding m1 s
    by (simp add: set_memory_def filled_def fresh_facade_eq default_config_def ttl_of_def Let_def)
  then have "length m1 = 1001"
    using new_key_not_filled[of 1000] by (simp add: length_update filled_length)
  with ev have "length (memoryCache s') = 901" by simp
  with r se s show ?thesis
    by (intro exI[of _ s] exI[of _ s']) (simp add: fresh_facade_def filled_length)
qed

subsection \<open>Reconnection with backoff\<close>

lemma delays_append [simp]: "delays (fx @ fy) = delays fx @ delays fy"
  by (induction fx rule: delays.induct) auto

lemma connects_append [simp]: "connects (fx @ fy) = connects fx + connects fy"
  by (induction fx rule: connects.induct) auto

lemma scheduleReconnect_effect:
  "scheduleReconnect r = (r', fx) \<Longrightarrow>
     maxReconnectAttempts r' = maxReconnectAttempts r \<and>
     reconnectAttempts r' = reconnectAttempts r \<and> connects fx = 0 \<and>
     delays fx = (if gave_up r then [] else [1000 * 2 ^ reconnectAttempts r]) \<and>
     (gave_up r \<longrightarrow> reconnectTimer r' = reconnectTimer r) \<and>
     (\<not> gave_up r \<longrightarrow> timer_pending r')"
  by (auto simp: scheduleReconnect_def gave_up_def timer_pending_def Let_def split: if_splits)

lemma on_event_failure:
  assumes "attempts_ok r" "ev \<noteq> Connect" "on_event ev r = (r', fx)"
  shows "attempts_ok r' \<and> maxReconnectAttempts r' = maxReconnectAttempts r \<and>
         reconnectAttempts r \<le> reconnectAttempts r' \<and>
         reconnectAttempts r + connects fx \<le> reconnectAttempts r' \<and>
         delays fx = (if ev = Error \<and> \<not> gave_up r then [1000 * 2 ^ reconnectAttempts r] else [])"
proof (cases ev)
  case Connect
  with assms(2) show ?thesis by simp
next
  case Ready
  with assms show ?thesis by (auto simp: attempts_ok_def timer_pending_def)
next
  case Error
  let ?r1 = "count_error (r\<lparr>isConnected := False\<rparr>)"
  have g: "gave_up ?r1 = gave_up r" by (simp add: gave_up_def count_error_def)
  have a: "reconnectAttempts ?r1 = reconnectAttempts r"
    "maxReconnectAttempts ?r1 = maxReconnectAttempts r" "reconnectTimer ?r1 = reconnectTimer r"
    by (simp_all add: count_error_def)
  from assms(3) Error have s: "scheduleReconnect ?r1 = (r', fx)" by simp
  note e = scheduleReconnect_effect[OF s, unfolded g a]
  have "attempts_ok r'"
  proof (cases "gave_up r")
    case True
    with e assms(1) show ?thesis by (simp add: attempts_ok_def timer_pending_def)
  next
    case False
    with e assms(1) show ?thesis by (simp add: attempts_ok_def gave_up_def)
  qed
  with e Error show ?thesis by simp
next
  case Close
  with assms show ?thesis by (auto simp: attempts_ok_def timer_pending_def)
next
  case Reconnecting
  with assms show ?thesis by auto
next
  case TimerFires
  with assms show ?thesis
    by (auto simp: attempts_ok_def timer_pending_def split: option.splits if_splits)
qed

lemma run_events_failures:
  assumes "attempts_ok r" "Connect \<notin> set evs" "run_events evs r = (r', fx)"
  shows "attempts_ok r' \<and> maxReconnectAttempts r' = maxReconnectAttempts r \<and>
         reconnectAttempts r \<le> reconnectAttempts r' \<and>
         reconnectAttempts r + connects fx \<le> reconnectAttempts r' \<and>
         sorted (delays fx) \<and>
         (\<forall>d\<in>set (delays fx). \<exists>a. reconnectAttempts r \<le> a \<and> a < maxReconnectAttempts r \<and>
                                     d = 1000 * 2 ^ a)"
  using assms
proof (induction evs arbitrary: r r' fx)
  case Nil
  then show ?case by simp
next
  case (Cons ev evs)
  obtain r1 fx1 where o: "on_event ev r = (r1, fx1)" by (cases "on_event ev r") auto
  obtain r2 fx2 where rr: "run_events evs r1 = (r2, fx2)" by (cases "run_events evs r1") auto
  from Cons.prems(3) o rr have r': "r' = r2" and fx: "fx = fx1 @ fx2" by simp_all
  from Cons.prems(2) have ne: "ev \<noteq> Connect" and nc: "Connect \<notin> set evs" by auto
  note s1 = on_event_failure[OF Cons.prems(1) ne o]
  from s1 have ok1: "attempts_ok r1" by simp
  note s2 = Cons.IH[OF ok1 nc rr]
  have d1: "\<forall>d\<in>set (delays fx1). d = 1000 * 2 ^ reconnectAttempts r \<and>
              reconnectAttempts r < maxReconnectAttempts r"
    using s1 by (auto simp: gave_up_def split: if_splits)
  have d2: "\<forall>d\<in>set (delays fx2). \<exists>a. reconnectAttempts r \<le> a \<and> a < maxReconnectAttempts r \<and>
                                     d = 1000 * 2 ^ a"
  proof
    fix d assume "d \<in> set (delays fx2)"
    with s2 obtain a where "reconnectAttempts r1 \<le> a" "a < maxReconnectAttempts r1" "d = 1000 * 2 ^ a"
      by blast
    with s1 show "\<exists>a. reconnectAttempts r \<le> a \<and> a < maxReconnectAttempts r \<and> d = 1000 * 2 ^ a"
      by (intro exI[of _ a]) simp
  qed
  have le: "\<forall>x\<in>set (delays fx1). \<forall>y\<in>set (delays fx2). x \<le> y"
  proof (intro ballI)
    fix x y assume x: "x \<in> set (delays fx1)" and y: "y \<in> set (delays fx2)"
    from d1 x have xe: "x = 1000 * 2 ^ reconnectAttempts r" by simp
    from d2 y obtain a where a: "reconnectAttempts r \<le> a" "y = 1000 * 2 ^ a" by blast
    have "(2::nat) ^ reconnectAttempts r \<le> 2 ^ a" using a(1) by (simp add: power_increasing)
    with xe a(2) show "x \<le> y" by simp
  qed
  have srt1: "sorted (delays fx1)" using s1 by (simp split: if_splits)
  have srt: "sorted (delays fx)" using srt1 s2 le by (simp add: fx sorted_append)
  have all: "\<forall>d\<in>set (delays fx). \<exists>a. reconnectAttempts r \<le> a \<and> a < maxReconnectAttempts r \<and>
                                     d = 1000 * 2 ^ a"
    using d1 d2 by (auto simp: fx)
  have cnt: "reconnectAttempts r + connects fx \<le> reconnectAttempts r'"
    using s1 s2 by (simp add: fx r')
  from s1 s2 srt all cnt show ?case by (simp add: r')
qed

lemma run_events_gave_up:
  assumes "attempts_ok r" "gave_up r" "Connect \<notin> set evs" "run_events evs r = (r', fx)"
  shows "delays fx = [] \<and> connects fx = 0 \<and> gave_up r'"
proof -
  note f = run_events_failures[OF assms(1,3,4)]
  from f have ok: "attempts_ok r'" and m: "maxReconnectAttempts r' = maxReconnectAttempts r"
    and le: "reconnectAttempts r \<le> reconnectAttempts r'"
    and c: "reconnectAttempts r + connects fx \<le> reconnectAttempts r'" by simp_all
  from ok have "reconnectAttempts r' \<le> maxReconnectAttempts r'" by (simp add: attempts_ok_def)
  with assms(2) m le c have "connects fx = 0" and g: "gave_up r'" by (simp_all add: gave_up_def)
  moreover have "delays fx = []"
  proof (rule ccontr)
    assume "delays fx \<noteq> []"
    then obtain d where "d \<in> set (delays fx)" by (cases "delays fx") auto
    with f obtain a where "reconnectAttempts r \<le> a" "a < maxReconnectAttempts r" by blast
    with assms(2) show False by (simp add: gave_up_def)
  qed
  ultimately show ?thesis by simp
qed

lemma failed_rounds_run:
  assumes "\<not> timer_pending r" "reconnectAttempts r \<le> maxReconnectAttempts r"
    "run_events (failed_rounds n) r = (r', fx)"
  shows "delays fx = map (\<lambda>i. 1000 * 2 ^ i)
                       [reconnectAttempts r ..< min (reconnectAttempts r + n) (maxReconnectAttempts r)] \<and>
         reconnectAttempts r' = min (reconnectAttempts r + n) (maxReconnectAttempts r) \<and>
         maxReconnectAttempts r' = maxReconnectAttempts r \<and> \<not> timer_pending r'"
  using assms
proof (induction n arbitrary: r r' fx)
  case 0
  then show ?case by simp
next
  case (Suc n)
  obtain r1 fx1 where o1: "on_event Error r = (r1, fx1)" by (cases "on_event Error r") auto
  obtain r2 fx2 where o2: "on_event TimerFires r1 = (r2, fx2)" by (cases "on_event TimerFires r1") auto
  obtain r3 fx3 where rr: "run_events (failed_rounds n) r2 = (r3, fx3)"
    by (cases "run_events (failed_rounds n) r2") auto
  from Suc.prems(3) o1 o2 rr have r': "r' = r3" and fx: "fx = fx1 @ fx2 @ fx3" by simp_all
  show ?case
  proof (cases "reconnectAttempts r < maxReconnectAttempts r")
    case True
    from o1 True have r1: "reconnectAttempts r1 = reconnectAttempts r"
      "maxReconnectAttempts r1 = maxReconnectAttempts r"
      "reconnectTimer r1 = Some \<lparr> delay = 2 ^ reconnectAttempts r * 1000, pending = True \<rparr>"
      "delays fx1 = [1000 * 2 ^ reconnectAttempts r]"
      by (auto simp: scheduleReconnect_def count_error_def Let_def)
    from o2 r1 have r2: "reconnectAttempts r2 = Suc (reconnectAttempts r)"
      "maxReconnectAttempts r2 = maxReconnectAttempts r" "\<not> timer_pending r2" "delays fx2 = []"
      by (auto simp: timer_pending_def)
    from True r2 have le2: "reconnectAttempts r2 \<le> maxReconnectAttempts r2" by simp
    note ih = Suc.IH[OF r2(3) le2 rr]
    have "[reconnectAttempts r ..< min (reconnectAttempts r + Suc n) (maxReconnectAttempts r)] =
            reconnectAttempts r #
              [Suc (reconnectAttempts r) ..< min (Suc (reconnectAttempts r) + n) (maxReconnectAttempts r)]"
      using True by (simp add: upt_conv_Cons)
    with ih r1 r2 show ?thesis by (simp add: fx r')
  next
    case False
    with Suc.prems(2) have eq: "reconnectAttempts r = maxReconnectAttempts r" by simp
    from o1 eq have r1: "reconnectAttempts r1 = reconnectAttempts r"
      "maxReconnectAttempts r1 = maxReconnectAttempts r"
      "reconnectTimer r1 = reconnectTimer r" "delays fx1 = []"
      by (auto simp: scheduleReconnect_def count_error_def Let_def)
    from o2 r1 Suc.prems(1) have r2: "reconnectAttempts r2 = reconnectAttempts r"
      "maxReconnectAttempts r2 = maxReconnectAttempts r" "\<not> timer_pending r2" "delays fx2 = []"
      by (auto simp: timer_pending_def split: option.splits)
    from eq r2 have le2: "reconnectAttempts r2 \<le> maxReconnectAttempts r2" by simp
    note ih = Suc.IH[OF r2(3) le2 rr]
    with r1 r2 eq show ?thesis by (simp add: fx r')
  qed
qed

lemma connected_client_attempts_ok: "attempts_ok connected_client"
  by (simp add: attempts_ok_def timer_pending_def connected_client_def RedisCacheManager_new_def)

lemma exhausted_client_attempts_ok: "attempts_ok exhausted_client \<and> gave_up exhausted_client"
  by (simp add: attempts_ok_def timer_pending_def gave_up_def exhausted_client_def
      connected_client_def RedisCacheManager_new_def)

lemma five_delays: "map (\<lambda>i. 1000 * 2 ^ i) [0..<min 6 5] = [1000, 2000, 4000, 8000, 16000::nat]"
  by code_simp

subsection \<open>CacheManager: the same three properties\<close>

lemma get_c_returns: "\<exists>a s'. get_c w now s k = Inr (a, s')"
  by (auto simp: get_c_def try_catch_def Let_def split: sum.splits option.splits)

lemma get_c_keeps_expired_entry:
  assumes "map_of (memoryCache_c s) k = Some item" "isExpired_c now item"
  shows "\<exists>a s'. get_c w now s k = Inr (a, s') \<and> (\<not> redis_on s \<longrightarrow> a = None) \<and>
           (a = None \<longrightarrow> memoryCache_c s' = memoryCache_c s)"
proof -
  obtain a s' where g: "get_c w now s k = Inr (a, s')" using get_c_returns[of w now s k] by auto
  have 1: "\<not> redis_on s \<longrightarrow> a = None"
    using g assms by (auto simp: get_c_def redis_on_def Let_def split: if_splits)
  have 2: "a = None \<longrightarrow> memoryCache_c s' = memoryCache_c s"
    using g assms
    by (auto simp: get_c_def try_catch_def connection_error_def Let_def
        split: sum.splits option.splits if_splits)
  from g 1 2 show ?thesis by (intro exI[of _ a] exI[of _ s']) simp
qed

lemma clear_c_resets:
  "\<exists>s'. clear_c w s = Inr ((), s') \<and> memoryCache_c s' = [] \<and>
        t_requests (getStats_c s') = 0 \<and> t_hits (getStats_c s') = 0 \<and>
        t_misses (getStats_c s') = 0 \<and> t_hitRate (getStats_c s') = 0 \<and>
        mc_size (getStats_c s') = 0 \<and> mc_evictionCount (getStats_c s') = 0"
  by (auto simp: clear_c_def try_catch_def getStats_c_def initializeStats_def
      calculateHitRate_c_def Let_def split: sum.splits)

lemma delete_c_effect:
  "delete_c w s k =
     Inr ((), s\<lparr>memoryCache_c := filter (\<lambda>p. fst p \<noteq> k) (memoryCache_c s)\<rparr>)"
  by (auto simp: delete_c_def try_catch_def delete_as_filter redis_on_def Let_def
      split: sum.splits)

lemma evict_loop_effect:
  "\<exists>s'. evict_loop w s es = Inr ((), s') \<and>
        memoryCache_c s' = filter (\<lambda>p. fst p \<notin> fst ` set es) (memoryCache_c s) \<and>
        mc_evictionCount (stats_c s') = mc_evictionCount (stats_c s) + length es"
proof (induction es arbitrary: s)
  case Nil
  then show ?case by simp
next
  case (Cons e es)
  let ?s1 = "s\<lparr>memoryCache_c := filter (\<lambda>p. fst p \<noteq> fst e) (memoryCache_c s)\<rparr>"
  let ?s2 = "?s1\<lparr>stats_c := (stats_c ?s1)\<lparr>mc_evictionCount := mc_evictionCount (stats_c ?s1) + 1\<rparr>\<rparr>"
  from Cons.IH[of ?s2] obtain s' where
    l: "evict_loop w ?s2 es = Inr ((), s')"
    and m: "memoryCache_c s' = filter (\<lambda>p. fst p \<notin> fst ` set es) (memoryCache_c ?s2)"
    and c: "mc_evictionCount (stats_c s') = mc_evictionCount (stats_c ?s2) + length es"
    by auto
  have "evict_loop w s (e # es) = Inr ((), s')" using l by (simp add: delete_c_effect)
  moreover have "memoryCache_c s' = filter (\<lambda>p. fst p \<notin> fst ` set (e # es)) (memoryCache_c s)"
    using m by (simp add: conj_commute)
  moreover have "mc_evictionCount (stats_c s') = mc_evictionCount (stats_c s) + length (e # es)"
    using c by simp
  ultimately show ?case by (intro exI[of _ s']) simp
qed

lemma evictLeastRecentlyUsed_oldest_fifth:
  assumes "distinct (map fst (memoryCache_c s))"
  shows "\<exists>s'. evictLeastRecentlyUsed w s = Inr ((), s') \<and>
           set (memoryCache_c s') \<subseteq> set (memoryCache_c s) \<and>
           length (memoryCache_c s') =
             length (memoryCache_c s) - (length (memoryCache_c s) + 4) div 5 \<and>
           (\<forall>e\<in>set (memoryCache_c s) - set (memoryCache_c s'). \<forall>r\<in>set (memoryCache_c s').
              lastAccessed (snd e) \<le> lastAccessed (snd r))"
proof -
  let ?f = "\<lambda>e :: key \<times> 'a CacheItem. lastAccessed (snd e)"
  let ?m = "memoryCache_c s"
  let ?j = "(length ?m + 4) div 5"
  let ?t = "take ?j (sort_key ?f ?m)"
  from evict_loop_effect[of w s ?t] obtain s' where
    l: "evict_loop w s ?t = Inr ((), s')"
    and m: "memoryCache_c s' = filter (\<lambda>p. fst p \<notin> fst ` set ?t) ?m" by auto
  have ev: "evictLeastRecentlyUsed w s = Inr ((), s')"
    using l by (simp add: evictLeastRecentlyUsed_def Let_def)
  have sub: "set (memoryCache_c s') \<subseteq> set ?m" using m by auto
  have len: "length (memoryCache_c s') = length ?m - ?j"
    unfolding m by (rule evict_retained_length[OF assms])
  have tsub: "set ?t \<subseteq> set ?m" using set_take_subset[of ?j "sort_key ?f ?m"] by simp
  have old: "\<forall>e\<in>set ?m - set (memoryCache_c s'). \<forall>r\<in>set (memoryCache_c s'). ?f e \<le> ?f r"
  proof (intro ballI)
    fix e r assume e: "e \<in> set ?m - set (memoryCache_c s')" and r: "r \<in> set (memoryCache_c s')"
    from e m have "e \<in> set ?m" "fst e \<in> fst ` set ?t" by auto
    then have "e \<in> set ?t" using key_in_sub[OF assms tsub] by simp
    moreover from r m have "r \<in> set (filter (\<lambda>p. fst p \<notin> fst ` set ?t) ?m)" by simp
    ultimately show "?f e \<le> ?f r" using evict_oldest_first[OF assms, of e ?j ?f r] by simp
  qed
  from ev sub len old show ?thesis by (intro exI[of _ s']) simp
qed

subsection \<open>Reading back what was written\<close>

lemma key_n_fresh_late: "key_n n \<notin> fst ` set (map (\<lambda>i. (key_n i, late_item)) [0..<n])"
proof
  assume "key_n n \<in> fst ` set (map (\<lambda>i. (key_n i, late_item)) [0..<n])"
  then obtain i where "i < n" "key_n n = key_n i" by auto
  then have "length (key_n n) = length (key_n i)" by simp
  with \<open>i < n\<close> show False by (simp add: key_n_def)
qed

lemma late_filled_memory_only: "active_redis (late_filled n) = None"
  by (simp add: late_filled_def active_redis_def fresh_facade_eq)

lemma late_fill_step:
  assumes "n < 1000"
  shows "exec (quiet_world, 1000, Set (key_n n) 0 None) (late_filled n) = Inr ((), late_filled (Suc n))"
proof -
  have "memoryCache (set_memory 1000 (late_filled n) (key_n n) 0 None) =
          AList.update (key_n n) late_item (map (\<lambda>i. (key_n i, late_item)) [0..<n])"
    by (simp add: set_memory_def late_filled_def fresh_facade_eq default_config_def ttl_of_def
        late_item_def Let_def)
  also have "\<dots> = map (\<lambda>i. (key_n i, late_item)) [0..<n] @ [(key_n n, late_item)]"
    using key_n_fresh_late[of n] by (rule update_fresh)
  also have "\<dots> = map (\<lambda>i. (key_n i, late_item)) [0..<Suc n]" by simp
  finally have m: "memoryCache (set_memory 1000 (late_filled n) (key_n n) 0 None) =
                     map (\<lambda>i. (key_n i, late_item)) [0..<Suc n]" .
  have s1: "set_memory 1000 (late_filled n) (key_n n) 0 None = late_filled (Suc n)"
  proof -
    have "set_memory 1000 (late_filled n) (key_n n) 0 None =
            (late_filled n)\<lparr>memoryCache := memoryCache (set_memory 1000 (late_filled n) (key_n n) 0 None)\<rparr>"
      by (simp add: set_memory_def Let_def)
    also have "\<dots> = late_filled (Suc n)" unfolding m by (simp add: late_filled_def)
    finally show ?thesis .
  qed
  have "length (memoryCache (late_filled (Suc n))) \<le> 1000" using assms by (simp add: late_filled_def)
  then have "checkMemoryLimit (late_filled (Suc n)) = late_filled (Suc n)"
    by (simp add: checkMemoryLimit_def)
  with s1 show ?thesis by (simp add: set_e_memory_only[OF late_filled_memory_only])
qed

lemma run_late_fill: "n \<le> 1000 \<Longrightarrow> run (late_fill n) fresh_facade = Inr ((), late_filled n)"
proof (induction n)
  case 0
  then show ?case by (simp add: late_fill_def late_filled_def fresh_facade_eq)
next
  case (Suc n)
  then have r: "run (late_fill n) fresh_facade = Inr ((), late_filled n)" and n: "n < 1000" by simp_all
  have "late_fill (Suc n) = late_fill n @ [(quiet_world, 1000, Set (key_n n) 0 None)]"
    by (simp add: late_fill_def)
  then show ?case using r late_fill_step[OF n] by (simp add: run_append)
qed

lemma sort_key_snoc_least:
  "\<forall>e\<in>set m. f x < f e \<Longrightarrow> sort_key f (m @ [x]) = x # sort_key f m"
  by (induction m) auto

lemma map_of_filter_out: "k \<in> K \<Longrightarrow> map_of (filter (\<lambda>p. fst p \<notin> K) m) k = None"
  by (induction m) auto

lemma after_early_set_facts:
  "map_of (memoryCache after_early_set) ''b'' = None \<and> length (memoryCache after_early_set) = 901"
proof -
  let ?early = "\<lparr> data = 7::nat, timestamp = 999, ttl = 5, accessCount = 0, lastAccessed = 999 \<rparr>"
  let ?m = "map (\<lambda>i. (key_n i, late_item)) [0..<1000]"
  let ?s1 = "set_memory 999 (late_filled 1000) ''b'' 7 (Some 5)"
  let ?f = "\<lambda>e :: key \<times> nat CacheItem. lastAccessed (snd e)"
  have fresh: "''b'' \<notin> fst ` set ?m" by (auto simp: key_n_def)
  have "memoryCache ?s1 = AList.update ''b'' ?early ?m"
    by (simp add: set_memory_def late_filled_def fresh_facade_eq default_config_def ttl_of_def Let_def)
  also have "\<dots> = ?m @ [(''b'', ?early)]" using fresh by (rule update_fresh)
  finally have m1: "memoryCache ?s1 = ?m @ [(''b'', ?early)]" .
  have len: "length (memoryCache ?s1) = 1001" by (simp add: m1)
  have "\<forall>e\<in>set ?m. ?f (''b'', ?early) < ?f e" by (auto simp: late_item_def)
  then have srt: "sort_key ?f (memoryCache ?s1) = (''b'', ?early) # sort_key ?f ?m"
    unfolding m1 by (rule sort_key_snoc_least)
  have "take (length (memoryCache ?s1) div 10) (sort_key ?f (memoryCache ?s1)) =
          (''b'', ?early) # take 99 (sort_key ?f ?m)"
    unfolding srt len by (simp add: take_Cons')
  then have k: "''b'' \<in> fst ` set (take (length (memoryCache ?s1) div 10) (sort_key ?f (memoryCache ?s1)))"
    by simp
  have mc: "memoryCache after_early_set =
          filter (\<lambda>p. fst p \<notin> fst ` set (take (length (memoryCache ?s1) div 10)
                        (sort_key ?f (memoryCache ?s1)))) (memoryCache ?s1)"
    using len by (simp add: after_early_set_def checkMemoryLimit_cases)
  have 1: "map_of (memoryCache after_early_set) ''b'' = None"
    unfolding mc using k by (rule map_of_filter_out)
  have keys: "map fst ?m = map key_n [0..<1000]" by (simp add: comp_def)
  have dk: "distinct (map key_n [0..<1000])"
    by (auto simp: distinct_map inj_on_def key_n_def)
  have fk: "''b'' \<notin> key_n ` {0..<1000}" by (auto simp: key_n_def)
  have "map fst (memoryCache ?s1) = map key_n [0..<1000] @ [''b'']"
    unfolding m1 by (simp add: comp_def)
  then have d: "distinct (map fst (memoryCache ?s1))" using dk fk by simp
  have "length (memoryCache (checkMemoryLimit ?s1)) = 1001 - 1001 div 10"
    using checkMemoryLimit_length[OF d] len by simp
  then have 2: "length (memoryCache after_early_set) = 901" by (simp add: after_early_set_def)
  from 1 2 show ?thesis by simp
qed

text \<open>
  C4 as stated fails. The tier is filled by 1000 writes at time 1000; the clock then reads
  999. The \<^verbatim>\<open>set\<close> of a new key at 999 brings the count to 1001 and runs the eviction pass;
  the entry it has just written is the least recently accessed, so the pass removes it
  (901 entries stay), and the \<^verbatim>\<open>get\<close> that follows at once returns \<^verbatim>\<open>null\<close>.
\<close>

theorem set_then_get_misses_after_clock_step_back:
  "run (late_fill 1000) fresh_facade = Inr ((), late_filled 1000) \<and>
   set_e quiet_world 999 (late_filled 1000) ''b'' 7 (Some 5) = Inr ((), after_early_set) \<and>
   length (memoryCache after_early_set) = 901 \<and>
   get_e quiet_world 999 after_early_set ''b'' =
     Inr (None, after_early_set\<lparr>stats :=
                  (stats after_early_set)\<lparr>total_requests := 1, total_misses := 1\<rparr>\<rparr>)"
proof -
  have 1: "run (late_fill 1000) fresh_facade = Inr ((), late_filled 1000)"
    by (rule run_late_fill) simp
  have 2: "set_e quiet_world 999 (late_filled 1000) ''b'' 7 (Some 5) = Inr ((), after_early_set)"
    by (simp add: set_e_memory_only[OF late_filled_memory_only] after_early_set_def)
  have st: "stats after_early_set = stats fresh_facade"
    by (simp add: after_early_set_def late_filled_def)
  have rq: "total_requests (stats after_early_set) = 0 \<and> total_misses (stats after_early_set) = 0"
    unfolding st by (simp add: fresh_facade_eq)
  have ar: "active_redis after_early_set = None"
    by (simp add: after_early_set_def active_redis_def late_filled_def fresh_facade_eq)
  let ?s1 = "after_early_set\<lparr>stats := (stats after_early_set)\<lparr>total_requests :=
               total_requests (stats after_early_set) + 1\<rparr>\<rparr>"
  have l: "live_item 999 ?s1 ''b'' = None"
    using after_early_set_facts by (simp add: live_item_def)
  have ar1: "active_redis ?s1 = None" using ar by (auto simp: active_redis_def split: if_splits)
  have 4: "get_e quiet_world 999 after_early_set ''b'' =
     Inr (None, after_early_set\<lparr>stats :=
                  (stats after_early_set)\<lparr>total_requests := 1, total_misses := 1\<rparr>\<rparr>)"
    using l ar1 rq by (simp add: get_e_def Let_def)
  from 1 2 4 after_early_set_facts show ?thesis by simp
qed

text \<open>
  C4 (amended). With the memory tier enabled and \<^verbatim>\<open>ttl > 0\<close>: in every state that a sequence of
  operations on a newly constructed facade reaches and in which no entry was accessed
  after the clock reading of the \<^verbatim>\<open>set\<close>, \<^verbatim>\<open>set(k, v, ttl)\<close> followed at the same instant by
  \<^verbatim>\<open>get(k)\<close> returns \<^verbatim>\<open>v\<close>, also when the \<^verbatim>\<open>set\<close> runs an eviction pass. Every state reached while
  the clock never ran backwards is such a state.
\<close>

theorem set_then_get_returns_value:
  "(enableMemoryCache cfg \<and> 0 < ttl0 \<and> run sts (EnhancedCacheManager_new cfg) = Inr ((), s) \<and>
    accessed_by now s \<longrightarrow>
      (\<exists>s1 s2. set_e w now s k v (Some ttl0) = Inr ((), s1) \<and>
               get_e w' now s1 k = Inr (Some v, s2))) \<and>
   (sorted (map time_of sts @ [now]) \<longrightarrow>
      (\<exists>s. run sts (EnhancedCacheManager_new cfg) = Inr ((), s) \<and> accessed_by now s))"
proof (intro conjI impI)
  assume h: "enableMemoryCache cfg \<and> 0 < ttl0 \<and>
             run sts (EnhancedCacheManager_new cfg) = Inr ((), s) \<and> accessed_by now s"
  then have r: "run sts (EnhancedCacheManager_new cfg) = Inr ((), s)" and ab: "accessed_by now s"
    by simp_all
  have wl: "within_limit s" using new_within_limit r by (rule run_within_limit)
  then have rc: "redisCache s = None" and d: "distinct (map fst (memoryCache s))"
    and l: "length (memoryCache s) \<le> 1000" by (simp_all add: within_limit_def)
  have cf: "config s = cfg" using run_config[OF r] by (simp add: new_config)
  with h have en: "enableMemoryCache (config s)" by simp
  let ?item = "\<lparr> data = v, timestamp = now, ttl = ttl_of s (Some ttl0),
                 accessCount = 0, lastAccessed = now \<rparr>"
  let ?s1 = "checkMemoryLimit (set_memory now s k v (Some ttl0))"
  have se: "set_e w now s k v (Some ttl0) = Inr ((), ?s1)"
    using rc by (simp add: set_e_memory_only no_client_inactive)
  have lk: "map_of (memoryCache ?s1) k = Some ?item"
    using d l ab en by (rule written_entry_survives)
  have ne: "\<not> isExpired now ?item" using h by (simp add: isExpired_def ttl_of_def)
  have en1: "enableMemoryCache (config ?s1)" using en by simp
  from get_e_live[OF en1 lk ne, of w'] obtain s2 where
    "get_e w' now ?s1 k = Inr (Some v, s2)" by auto
  with se show "\<exists>s1 s2. set_e w now s k v (Some ttl0) = Inr ((), s1) \<and>
               get_e w' now s1 k = Inr (Some v, s2)"
    by (intro exI[of _ ?s1] exI[of _ s2]) simp
next
  assume h: "sorted (map time_of sts @ [now])"
  obtain s where r: "run sts (EnhancedCacheManager_new cfg) = Inr ((), s)"
    using run_returns[of sts "EnhancedCacheManager_new cfg"] by auto
  let ?t = "hd (map time_of sts @ [now])"
  from h have "sorted (?t # map time_of sts @ [now])"
    by (cases "map time_of sts @ [now]") auto
  with new_within_limit new_accessed_by have ab: "accessed_by now s"
    using r by (rule run_accessed_by)
  with r show "\<exists>s. run sts (EnhancedCacheManager_new cfg) = Inr ((), s) \<and> accessed_by now s"
    by (intro exI[of _ s]) simp
qed

theorem set_then_get_returns_value_witness:
  "\<exists>s s1 s2. run (fill 1000) fresh_facade = Inr ((), s) \<and> length (memoryCache s) = 1000 \<and>
      accessed_by 0 s \<and>
      set_e quiet_world 0 s ''b'' 7 (Some 5) = Inr ((), s1) \<and>
      get_e quiet_world 0 s1 ''b'' = Inr (Some 7, s2)"
proof -
  have c: "sorted (map time_of (fill 1000) @ [0])"
    by (simp add: fill_times sorted_replicate_snoc)
  note t1 = set_then_get_returns_value
         [where sts="fill 1000" and cfg=default_config and now=0, THEN conjunct2]
  have "\<exists>s. run (fill 1000) (EnhancedCacheManager_new default_config) = Inr ((), s) \<and> accessed_by 0 s"
    by (rule mp[OF t1 c])
  then obtain s where r: "run (fill 1000) (EnhancedCacheManager_new default_config) = Inr ((), s)"
    and ab: "accessed_by 0 s" by (elim exE conjE)
  have h: "enableMemoryCache default_config \<and> (0::int) < 5 \<and>
           run (fill 1000) (EnhancedCacheManager_new default_config) = Inr ((), s) \<and> accessed_by 0 s"
    using r ab by (simp add: default_config_def)
  note t2 = set_then_get_returns_value
         [where sts="fill 1000" and cfg=default_config and now=0 and s=s and k="''b''" and v=7
            and ?ttl0.0=5 and w=quiet_world and w'=quiet_world, THEN conjunct1]
  have "\<exists>s1 s2. set_e quiet_world 0 s ''b'' 7 (Some 5) = Inr ((), s1) \<and>
        get_e quiet_world 0 s1 ''b'' = Inr (Some 7, s2)"
    by (rule mp[OF t2 h])
  then obtain s1 s2 where
    se: "set_e quiet_world 0 s ''b'' 7 (Some 5) = Inr ((), s1)"
    and g: "get_e quiet_world 0 s1 ''b'' = Inr (Some 7, s2)"
    by (elim exE conjE)
  from r have s: "s = filled 1000" using run_fill[of 1000] by (simp add: fresh_facade_def)
  with r ab se g show ?thesis
    by (intro exI[of _ s] exI[of _ s1] exI[of _ s2]) (simp add: fresh_facade_def filled_length)
qed

subsection \<open>Bursts of errors, and events of success\<close>

lemma error_burst:
  assumes "\<not> gave_up r" "run_events (replicate m Error) r = (r', fx)"
  shows "delays fx = replicate m (1000 * 2 ^ reconnectAttempts r) \<and>
         reconnectAttempts r' = reconnectAttempts r \<and>
         maxReconnectAttempts r' = maxReconnectAttempts r"
  using assms
proof (induction m arbitrary: r r' fx)
  case 0
  then show ?case by simp
next
  case (Suc m)
  obtain r1 fx1 where o: "on_event Error r = (r1, fx1)" by (cases "on_event Error r") auto
  obtain r2 fx2 where rr: "run_events (replicate m Error) r1 = (r2, fx2)"
    by (cases "run_events (replicate m Error) r1") auto
  from Suc.prems(2) o rr have r': "r' = r2" and fx: "fx = fx1 @ fx2" by simp_all
  from o Suc.prems(1) have r1: "reconnectAttempts r1 = reconnectAttempts r"
    "maxReconnectAttempts r1 = maxReconnectAttempts r"
    "delays fx1 = [1000 * 2 ^ reconnectAttempts r]"
    by (auto simp: scheduleReconnect_def count_error_def gave_up_def Let_def)
  then have "\<not> gave_up r1" using Suc.prems(1) by (simp add: gave_up_def)
  from Suc.IH[OF this rr] r1 show ?case by (simp add: fx r')
qed

lemma success_events:
  "reconnectAttempts (fst (on_event Connect r)) = 0 \<and> isConnected (fst (on_event Connect r)) \<and>
   isConnected (fst (on_event Ready r)) \<and>
   reconnectAttempts (fst (on_event Ready r)) = reconnectAttempts r"
  by simp

text \<open>
  C7 (amended). Take a client whose attempts do not exceed the maximum and whose timer is
  pending only while an attempt is left (as from its construction on), and any sequence
  of connection events without a \<^verbatim>\<open>connect\<close>. The delays of the timers it sets are
  non-decreasing, each \<open>1000 * 2 ^ a\<close> for an attempt count \<open>a\<close> below the maximum; it makes at
  most as many reconnect attempts as the maximum leaves; and once the attempts are used up
  it sets no timer and makes no attempt for the rest of the sequence. From a new client,
  \<open>n\<close> rounds of failure and fired reconnect give the delays \<open>1000 * 2 ^ i\<close> for \<open>i < min n 5\<close>,
  and after five rounds the attempts are used up. The attempt count moves when a reconnect
  timer fires, not at an error: \<open>m\<close> errors in a row, with attempts left, set \<open>m\<close> timers of
  the same delay and leave the count as it is. The end of the attempts is not for good: a
  \<^verbatim>\<open>connect\<close> event sets the count back to 0 and marks the client connected, and a \<^verbatim>\<open>ready\<close> event
  marks it connected.
\<close>

theorem reconnect_backoff:
  "(attempts_ok r \<and> Connect \<notin> set evs \<longrightarrow>
      (\<exists>r' fx. run_events evs r = (r', fx) \<and> attempts_ok r' \<and>
         sorted (delays fx) \<and>
         (\<forall>d\<in>set (delays fx). \<exists>a. reconnectAttempts r \<le> a \<and> a < maxReconnectAttempts r \<and>
                                     d = 1000 * 2 ^ a) \<and>
         reconnectAttempts r + connects fx \<le> maxReconnectAttempts r \<and>
         (gave_up r \<longrightarrow> delays fx = [] \<and> connects fx = 0 \<and> gave_up r'))) \<and>
   (\<exists>r' fx. run_events (failed_rounds n) connected_client = (r', fx) \<and>
         delays fx = map (\<lambda>i. 1000 * 2 ^ i) [0..<min n 5] \<and>
         reconnectAttempts r' = min n 5 \<and> (5 \<le> n \<longrightarrow> gave_up r')) \<and>
   (\<not> gave_up r \<longrightarrow>
      (\<exists>r' fx. run_events (replicate m Error) r = (r', fx) \<and>
         delays fx = replicate m (1000 * 2 ^ reconnectAttempts r) \<and>
         reconnectAttempts r' = reconnectAttempts r \<and> \<not> gave_up r')) \<and>
   reconnectAttempts (fst (on_event Connect r)) = 0 \<and> isConnected (fst (on_event Connect r)) \<and>
   isConnected (fst (on_event Ready r))"
proof (intro conjI)
  show "attempts_ok r \<and> Connect \<notin> set evs \<longrightarrow>
      (\<exists>r' fx. run_events evs r = (r', fx) \<and> attempts_ok r' \<and>
         sorted (delays fx) \<and>
         (\<forall>d\<in>set (delays fx). \<exists>a. reconnectAttempts r \<le> a \<and> a < maxReconnectAttempts r \<and>
                                     d = 1000 * 2 ^ a) \<and>
         reconnectAttempts r + connects fx \<le> maxReconnectAttempts r \<and>
         (gave_up r \<longrightarrow> delays fx = [] \<and> connects fx = 0 \<and> gave_up r'))"
  proof
    assume h: "attempts_ok r \<and> Connect \<notin> set evs"
    obtain r' fx where rr: "run_events evs r = (r', fx)" by (cases "run_events evs r") auto
    from h have ok: "attempts_ok r" and nc: "Connect \<notin> set evs" by simp_all
    note f = run_events_failures[OF ok nc rr]
    from f have ok': "attempts_ok r'" by simp
    then have "reconnectAttempts r' \<le> maxReconnectAttempts r'" by (simp add: attempts_ok_def)
    with f have cap: "reconnectAttempts r + connects fx \<le> maxReconnectAttempts r" by simp
    have g: "gave_up r \<longrightarrow> delays fx = [] \<and> connects fx = 0 \<and> gave_up r'"
      using run_events_gave_up[OF ok _ nc rr] by simp
    from f have srt: "sorted (delays fx)"
      and all: "\<forall>d\<in>set (delays fx). \<exists>a. reconnectAttempts r \<le> a \<and> a < maxReconnectAttempts r \<and>
                                     d = 1000 * 2 ^ a" by simp_all
    show "\<exists>r' fx. run_events evs r = (r', fx) \<and> attempts_ok r' \<and>
         sorted (delays fx) \<and>
         (\<forall>d\<in>set (delays fx). \<exists>a. reconnectAttempts r \<le> a \<and> a < maxReconnectAttempts r \<and>
                                     d = 1000 * 2 ^ a) \<and>
         reconnectAttempts r + connects fx \<le> maxReconnectAttempts r \<and>
         (gave_up r \<longrightarrow> delays fx = [] \<and> connects fx = 0 \<and> gave_up r')"
      apply (rule exI[of _ r'])
      apply (rule exI[of _ fx])
      using rr ok' srt all cap g apply (intro conjI)
           apply assumption+
      done
  qed
next
  obtain r' fx where rr: "run_events (failed_rounds n) connected_client = (r', fx)"
    by (cases "run_events (failed_rounds n) connected_client") auto
  have c: "\<not> timer_pending connected_client"
    "reconnectAttempts connected_client \<le> maxReconnectAttempts connected_client"
    "reconnectAttempts connected_client = 0" "maxReconnectAttempts connected_client = 5"
    by (simp_all add: timer_pending_def connected_client_def RedisCacheManager_new_def)
  note f = failed_rounds_run[OF c(1,2) rr, unfolded c(3,4)]
  from f have d: "delays fx = map (\<lambda>i. 1000 * 2 ^ i) [0..<min n 5]"
    and a: "reconnectAttempts r' = min n 5" and m: "maxReconnectAttempts r' = 5" by simp_all
  from a m have g: "5 \<le> n \<longrightarrow> gave_up r'" by (simp add: gave_up_def)
  from rr d a g
  show "\<exists>r' fx. run_events (failed_rounds n) connected_client = (r', fx) \<and>
         delays fx = map (\<lambda>i. 1000 * 2 ^ i) [0..<min n 5] \<and>
         reconnectAttempts r' = min n 5 \<and> (5 \<le> n \<longrightarrow> gave_up r')"
    by (intro exI[of _ r'] exI[of _ fx] conjI)
next
  show "\<not> gave_up r \<longrightarrow>
      (\<exists>r' fx. run_events (replicate m Error) r = (r', fx) \<and>
         delays fx = replicate m (1000 * 2 ^ reconnectAttempts r) \<and>
         reconnectAttempts r' = reconnectAttempts r \<and> \<not> gave_up r')"
  proof
    assume g: "\<not> gave_up r"
    obtain r' fx where rr: "run_events (replicate m Error) r = (r', fx)"
      by (cases "run_events (replicate m Error) r") auto
    note b = error_burst[OF g rr]
    from b g have "\<not> gave_up r'" by (simp add: gave_up_def)
    with rr b show "\<exists>r' fx. run_events (replicate m Error) r = (r', fx) \<and>
         delays fx = replicate m (1000 * 2 ^ reconnectAttempts r) \<and>
         reconnectAttempts r' = reconnectAttempts r \<and> \<not> gave_up r'"
      by (intro exI[of _ r'] exI[of _ fx]) simp
  qed
next
  show "reconnectAttempts (fst (on_event Connect r)) = 0" by simp
  show "isConnected (fst (on_event Connect r))" by simp
  show "isConnected (fst (on_event Ready r))" by simp
qed

theorem reconnect_backoff_witness:
  "(\<exists>r' fx. run_events [Error, TimerFires, Error] connected_client = (r', fx) \<and>
        sorted (delays fx) \<and> delays fx = [1000, 2000]) \<and>
   (\<exists>r' fx. run_events [Error, TimerFires, Close, Error] exhausted_client = (r', fx) \<and>
        delays fx = [] \<and> connects fx = 0 \<and> gave_up r') \<and>
   (\<exists>r' fx. run_events (failed_rounds 6) connected_client = (r', fx) \<and>
        delays fx = [1000, 2000, 4000, 8000, 16000] \<and> gave_up r') \<and>
   (\<exists>r' fx. run_events (replicate 6 Error) connected_client = (r', fx) \<and>
        delays fx = replicate 6 1000 \<and> reconnectAttempts r' = 0 \<and> \<not> gave_up r')"
proof (intro conjI)
  note t = reconnect_backoff[of connected_client "[Error, TimerFires, Error]" 6 6]
  have h: "attempts_ok connected_client \<and> Connect \<notin> set [Error, TimerFires, Error]"
    using connected_client_attempts_ok by simp
  from t[THEN conjunct1, THEN mp, OF h] obtain r' fx where
    rr: "run_events [Error, TimerFires, Error] connected_client = (r', fx)"
    and srt: "sorted (delays fx)" by (elim exE conjE)
  from rr have "delays fx = [1000, 2000]"
    by (auto simp: scheduleReconnect_def count_error_def connected_client_def
        RedisCacheManager_new_def Let_def)
  with rr srt show "\<exists>r' fx. run_events [Error, TimerFires, Error] connected_client = (r', fx) \<and>
        sorted (delays fx) \<and> delays fx = [1000, 2000]"
    by (intro exI[of _ r'] exI[of _ fx] conjI)
next
  note t = reconnect_backoff[of exhausted_client "[Error, TimerFires, Close, Error]" 6 6]
  have h: "attempts_ok exhausted_client \<and> Connect \<notin> set [Error, TimerFires, Close, Error]"
    using exhausted_client_attempts_ok by simp
  from t[THEN conjunct1, THEN mp, OF h] obtain r' fx where
    rr: "run_events [Error, TimerFires, Close, Error] exhausted_client = (r', fx)"
    and g: "gave_up exhausted_client \<longrightarrow> delays fx = [] \<and> connects fx = 0 \<and> gave_up r'"
    by (elim exE conjE)
  from g exhausted_client_attempts_ok have "delays fx = []" "connects fx = 0" "gave_up r'"
    by simp_all
  with rr show "\<exists>r' fx. run_events [Error, TimerFires, Close, Error] exhausted_client = (r', fx) \<and>
        delays fx = [] \<and> connects fx = 0 \<and> gave_up r'"
    by (intro exI[of _ r'] exI[of _ fx] conjI)
next
  note t = reconnect_backoff[of connected_client "[]" 6 6]
  from t[THEN conjunct2, THEN conjunct1] obtain r' fx where
    rr: "run_events (failed_rounds 6) connected_client = (r', fx)"
    and d: "delays fx = map (\<lambda>i. 1000 * 2 ^ i) [0..<min 6 5]"
    and g: "(5::nat) \<le> 6 \<longrightarrow> gave_up r'" by (elim exE conjE)
  from d have "delays fx = [1000, 2000, 4000, 8000, 16000]" by (simp only: five_delays)
  moreover from g have "gave_up r'" by simp
  ultimately show "\<exists>r' fx. run_events (failed_rounds 6) connected_client = (r', fx) \<and>
        delays fx = [1000, 2000, 4000, 8000, 16000] \<and> gave_up r'"
    using rr by (intro exI[of _ r'] exI[of _ fx] conjI)
next
  note t = reconnect_backoff[of connected_client "[]" 6 6]
  have a0: "reconnectAttempts connected_client = 0"
    by (simp add: connected_client_def RedisCacheManager_new_def)
  have ng: "\<not> gave_up connected_client"
    by (simp add: gave_up_def connected_client_def RedisCacheManager_new_def)
  from t[THEN conjunct2, THEN conjunct2, THEN conjunct1, THEN mp, OF ng] obtain r' fx where
    rr: "run_events (replicate 6 Error) connected_client = (r', fx)"
    and d: "delays fx = replicate 6 (1000 * 2 ^ reconnectAttempts connected_client)"
    and a: "reconnectAttempts r' = reconnectAttempts connected_client"
    and g: "\<not> gave_up r'" by (elim exE conjE)
  from d a0 have d': "delays fx = replicate 6 1000" by simp
  from a a0 have a': "reconnectAttempts r' = 0" by simp
  from rr d' a' g
  show "\<exists>r' fx. run_events (replicate 6 Error) connected_client = (r', fx) \<and>
        delays fx = replicate 6 1000 \<and> reconnectAttempts r' = 0 \<and> \<not> gave_up r'"
    by (intro exI[of _ r'] exI[of _ fx] conjI)
qed

text \<open>
  C7 as stated fails twice. Six errors in a row, more than the maximum of five, leave a
  new client with its attempt count at 0: it has set a timer of 1000 ms at each and has not
  given up. And a client that has used up its attempts is not out of use for good: a
  \<^verbatim>\<open>ready\<close> event makes it usable again, and after a \<^verbatim>\<open>connect\<close> event the next error sets a
  timer of 1000 ms.
\<close>

theorem error_burst_keeps_retrying_and_connect_restarts:
  "delays (snd (run_events [Error, Error, Error, Error, Error, Error] connected_client)) =
     [1000, 1000, 1000, 1000, 1000, 1000] \<and>
   reconnectAttempts (fst (run_events [Error, Error, Error, Error, Error, Error] connected_client)) = 0 \<and>
   \<not> gave_up (fst (run_events [Error, Error, Error, Error, Error, Error] connected_client)) \<and>
   gave_up exhausted_client \<and> \<not> usable exhausted_client \<and>
   usable (fst (on_event Ready exhausted_client)) \<and>
   delays (snd (run_events [Connect, Error] exhausted_client)) = [1000] \<and>
   \<not> gave_up (fst (run_events [Connect, Error] exhausted_client))"
  by (simp add: scheduleReconnect_def count_error_def connected_client_def exhausted_client_def
      RedisCacheManager_new_def gave_up_def usable_def Let_def)

end
